theory Spec2Isabelle
  imports Complex_Main
begin

section \<open>Python and numpy primitives used by \<open>hrdic.py\<close>\<close>

text \<open>
  The exceptions the modelled code can raise. A function that can raise returns
  \<open>error + 'a\<close>, with \<open>Inl\<close> for the exception.
\<close>

datatype error = IndexError | TypeError | AttributeError

text \<open>A 2-D numpy array is the list of its rows; a pixel is the tuple \<open>(x, y)\<close>.\<close>

type_synonym 'a ndarray = "'a list list"
type_synonym coord = "int \<times> int"

text \<open>
  Indexing one axis of size \<open>n\<close> with the integer \<open>i\<close>: a negative index counts from
  the end, and an index outside \<open>-n \<le> i < n\<close> raises IndexError.
\<close>

definition np_index :: "nat \<Rightarrow> int \<Rightarrow> error + nat" where
  "np_index n i =
     (if 0 \<le> i \<and> i < int n then Inr (nat i)
      else if i < 0 \<and> - int n \<le> i then Inr (nat (int n + i))
      else Inl IndexError)"

text \<open>\<open>a[r, c]\<close> and \<open>a[r, c] = v\<close>.\<close>

definition np_get :: "'a ndarray \<Rightarrow> int \<Rightarrow> int \<Rightarrow> error + 'a" where
  "np_get a r c =
     (case np_index (length a) r of
        Inl e \<Rightarrow> Inl e
      | Inr i \<Rightarrow>
         (case np_index (length (a ! i)) c of
            Inl e \<Rightarrow> Inl e
          | Inr j \<Rightarrow> Inr (a ! i ! j)))"

definition np_set :: "'a ndarray \<Rightarrow> int \<Rightarrow> int \<Rightarrow> 'a \<Rightarrow> error + 'a ndarray" where
  "np_set a r c v =
     (case np_index (length a) r of
        Inl e \<Rightarrow> Inl e
      | Inr i \<Rightarrow>
         (case np_index (length (a ! i)) c of
            Inl e \<Rightarrow> Inl e
          | Inr j \<Rightarrow> Inr (a[i := (a ! i)[j := v]])))"

text \<open>
  \<open>np.where(a == v)\<close>: the row indices and the column indices of the matching cells,
  as two parallel arrays, in row-major order.
\<close>

definition np_where_eq :: "int ndarray \<Rightarrow> int \<Rightarrow> int list \<times> int list" where
  "np_where_eq a v =
     (let hits = concat (map (\<lambda>i. map (\<lambda>j. (int i, int j))
                                (filter (\<lambda>j. a ! i ! j = v) [0..<length (a ! i)]))
                         [0..<length a])
      in (map fst hits, map snd hits))"

text \<open>\<open>xs[0]\<close> on a Python sequence.\<close>

definition first :: "'a list \<Rightarrow> error + 'a" where
  "first xs = (case xs of [] \<Rightarrow> Inl IndexError | x # _ \<Rightarrow> Inr x)"


text \<open>
  \<open>np.delete(moves, i, 0)\<close>: the array without row \<open>i\<close>. The source only calls it with
  an index inside the array.
\<close>

definition np_delete :: "'a list \<Rightarrow> nat \<Rightarrow> 'a list" where
  "np_delete xs i = take i xs @ drop (Suc i) xs"

text \<open>
  The slice \<open>xs[i:j]\<close>: a negative bound counts from the end, both bounds are clipped
  to the sequence, and the slice is empty when the stop is not after the start.
\<close>

definition slice_bound :: "nat \<Rightarrow> int \<Rightarrow> nat" where
  "slice_bound n i = (if i < 0 then nat (max 0 (int n + i)) else min n (nat i))"

definition py_slice :: "'a list \<Rightarrow> int \<Rightarrow> int \<Rightarrow> 'a list" where
  "py_slice xs i j =
     (let lo = slice_bound (length xs) i; hi = slice_bound (length xs) j
      in take (hi - lo) (drop lo xs))"



text \<open>A loop whose body can raise: the first exception ends it.\<close>

fun foldE :: "('s \<Rightarrow> 'a \<Rightarrow> error + 's) \<Rightarrow> 'a list \<Rightarrow> 's \<Rightarrow> error + 's" where
  "foldE f [] s = Inr s"
| "foldE f (x # xs) s = (case f s x of Inl e \<Rightarrow> Inl e | Inr s' \<Rightarrow> foldE f xs s')"

section \<open>The data model\<close>

text \<open>
  The grain objects of the EBSD map belong to another module; one is represented by its
  identity.
\<close>

datatype ebsd_grain = EbsdGrain nat

text \<open>
  Class \<open>Grain\<close>. The back reference \<open>dicMap\<close> is not read by the modelled methods.
  \<open>ebsdGrainId\<close> does not exist before \<open>findGrains\<close> sets it.
\<close>

record grain =
  coordList :: "coord list"
  maxShearList :: "real list"
  ebsdGrainId :: "int option"
  ebsdGrain :: "ebsd_grain option"

definition Grain :: grain where
  "Grain = \<lparr>coordList = [], maxShearList = [], ebsdGrainId = None, ebsdGrain = None\<rparr>"

definition len :: "grain \<Rightarrow> int" where
  "len g = int (length (coordList g))"

definition addPoint :: "grain \<Rightarrow> coord \<Rightarrow> real \<Rightarrow> grain" where
  "addPoint g coord maxShear =
     g\<lparr>coordList := coordList g @ [coord], maxShearList := maxShearList g @ [maxShear]\<rparr>"

text \<open>What \<open>findGrains\<close> reads of the linked EBSD map.\<close>

record ebsd_map =
  ebsd_homogPoints :: "(real \<times> real) list"
  ebsd_grains :: "int ndarray"
  ebsd_grainList :: "ebsd_grain list"

text \<open>
  Class \<open>Map\<close>, the fields the modelled methods use. \<open>xdim\<close>, \<open>ydim\<close> are the full
  size and \<open>xDim\<close>, \<open>yDim\<close> the size after cropping; the source computes the full size
  as a float holding a whole number, here it is an integer. \<open>cropDists\<close> is the 2 x 2
  array \<open>((cropDists[0,0], cropDists[0,1]), (cropDists[1,0], cropDists[1,1]))\<close>.
  \<open>ebsdTransform\<close> holds the parameter matrix of the affine transform.
\<close>

record dic_map =
  xdim :: int
  ydim :: int
  xDim :: int
  yDim :: int
  cropDists :: "(int \<times> int) \<times> (int \<times> int)"
  max_shear :: "real ndarray"
  homogPoints :: "(real \<times> real) list"
  ebsdMap :: "ebsd_map option"
  ebsdTransform :: "real ndarray option"
  grains :: "int ndarray"
  grainList :: "grain list"
  ebsdGrainIds :: "int list"

section \<open>Cropping\<close>

text \<open>
  \<open>setCrop\<close>: an argument left at \<open>None\<close> keeps the stored margin, and then the
  subtraction that computes the cropped size raises TypeError.
\<close>

definition setCrop :: "dic_map \<Rightarrow> int option \<Rightarrow> int option \<Rightarrow> int option \<Rightarrow> int option
    \<Rightarrow> error + dic_map" where
  "setCrop m xMin xMax yMin yMax =
     (let c00 = (case xMin of None \<Rightarrow> fst (fst (cropDists m)) | Some v \<Rightarrow> v);
          c01 = (case xMax of None \<Rightarrow> snd (fst (cropDists m)) | Some v \<Rightarrow> v);
          c10 = (case yMin of None \<Rightarrow> fst (snd (cropDists m)) | Some v \<Rightarrow> v);
          c11 = (case yMax of None \<Rightarrow> snd (snd (cropDists m)) | Some v \<Rightarrow> v)
      in (case (xMin, xMax, yMin, yMax) of
            (Some x0, Some x1, Some y0, Some y1) \<Rightarrow>
              Inr (m\<lparr>cropDists := ((c00, c01), (c10, c11)),
                     xDim := xdim m - x0 - x1,
                     yDim := ydim m - y0 - y1\<rparr>)
          | _ \<Rightarrow> Inl TypeError))"

text \<open>
  \<open>crop\<close>: \<open>mapData[cropDists[1,0] : -cropDists[1,1], cropDists[0,0] : -cropDists[0,1]]\<close>.
\<close>

definition crop :: "dic_map \<Rightarrow> 'a ndarray \<Rightarrow> 'a ndarray" where
  "crop m mapData =
     map (\<lambda>row. py_slice row (fst (fst (cropDists m))) (- snd (fst (cropDists m))))
         (py_slice mapData (fst (snd (cropDists m))) (- snd (snd (cropDists m))))"

text \<open>
  The shape of \<open>crop(mapData)\<close> for a \<open>mapData\<close> of the shape \<open>(rows, cols)\<close>. numpy
  slices each axis on its own, so an axis has the length of its slice whatever the
  other axis has: an array without rows still has its sliced width.
\<close>

definition slice_length :: "nat \<Rightarrow> int \<Rightarrow> int \<Rightarrow> nat" where
  "slice_length n i j = slice_bound n j - slice_bound n i"

definition crop_shape :: "dic_map \<Rightarrow> nat \<times> nat \<Rightarrow> nat \<times> nat" where
  "crop_shape m s =
     (slice_length (fst s) (fst (snd (cropDists m))) (- snd (snd (cropDists m))),
      slice_length (snd s) (fst (fst (cropDists m))) (- snd (fst (cropDists m))))"

section \<open>Linking the EBSD map\<close>

text \<open>
  \<open>linkEbsdMap\<close> and the first line of \<open>warpToDicFrame\<close> hand the two point lists to
  \<open>AffineTransform.estimate\<close> of scikit-image, which is not part of the repository: it
  is the parameter \<open>estimate\<close>, returning the new parameter matrix and its success flag,
  or the exception it raises. The source checks nothing before the call, and drops the
  flag.
\<close>

definition linkEbsdMap ::
  "((real \<times> real) list \<Rightarrow> (real \<times> real) list \<Rightarrow> error + real ndarray \<times> bool)
    \<Rightarrow> dic_map \<Rightarrow> ebsd_map \<Rightarrow> error + dic_map" where
  "linkEbsdMap estimate m e =
     (case estimate (homogPoints m) (ebsd_homogPoints e) of
        Inl err \<Rightarrow> Inl err
      | Inr (params, ok) \<Rightarrow> Inr (m\<lparr>ebsdMap := Some e, ebsdTransform := Some params\<rparr>))"

text \<open>
  The first statement of \<open>warpToDicFrame\<close>, which estimates the transform again
  from the current point lists; the warp itself is scikit-image's.
\<close>

definition warpToDicFrame_estimate ::
  "((real \<times> real) list \<Rightarrow> (real \<times> real) list \<Rightarrow> error + real ndarray \<times> bool)
    \<Rightarrow> dic_map \<Rightarrow> error + dic_map" where
  "warpToDicFrame_estimate estimate m =
     (case ebsdTransform m of
        None \<Rightarrow> Inl AttributeError
      | Some _ \<Rightarrow>
          (case ebsdMap m of
             None \<Rightarrow> Inl AttributeError
           | Some e \<Rightarrow>
               (case estimate (homogPoints m) (ebsd_homogPoints e) of
                  Inl err \<Rightarrow> Inl err
                | Inr (params, ok) \<Rightarrow> Inr (m\<lparr>ebsdTransform := Some params\<rparr>))))"

section \<open>Flood fill\<close>

text \<open>
  The scalar sample \<open>max_shear[y + cropDists[1,0], x + cropDists[0,0]]\<close>.
\<close>

definition sample :: "dic_map \<Rightarrow> coord \<Rightarrow> error + real" where
  "sample m p =
     (case p of (x, y) \<Rightarrow>
        np_get (max_shear m) (y + fst (snd (cropDists m))) (x + fst (fst (cropDists m))))"

text \<open>
  The candidate moves from the frontier pixel \<open>(x, y)\<close>, after the deletions at the
  edges of the grid.
\<close>

definition moves_of :: "dic_map \<Rightarrow> coord \<Rightarrow> coord list" where
  "moves_of m p =
     (case p of (x, y) \<Rightarrow>
        let moves = [(x + 1, y), (x - 1, y), (x, y + 1), (x, y - 1)];
            (moves, movesIndexShift) =
               (if x \<le> 0 then (np_delete moves 1, 1::nat)
                else if x \<ge> xDim m - 1 then (np_delete moves 0, 1)
                else (moves, 0))
        in if y \<le> 0 then np_delete moves (3 - movesIndexShift)
           else if y \<ge> yDim m - 1 then np_delete moves (2 - movesIndexShift)
           else moves)"

text \<open>
  The state of one flood fill: the map (of which \<open>grains\<close> is written), the grain being
  grown and the next frontier. The source's local list \<open>grain\<close> is only appended to and
  never read; it is left out.
\<close>

record fill_state =
  fmap :: dic_map
  currentGrain :: grain
  newedge :: "coord list"

text \<open>The body of \<open>for (s, t) in moves\<close>, for the frontier pixel \<open>p = (x, y)\<close>.\<close>

definition visit :: "int \<Rightarrow> coord \<Rightarrow> fill_state \<Rightarrow> coord \<Rightarrow> error + fill_state" where
  "visit grainIndex p st q =
     (case p of (x, y) \<Rightarrow> case q of (s, t) \<Rightarrow>
        (case np_get (grains (fmap st)) t s of
           Inl e \<Rightarrow> Inl e
         | Inr v \<Rightarrow>
             if v = 0 then
               (case sample (fmap st) (x, y) of
                  Inl e \<Rightarrow> Inl e
                | Inr maxShear \<Rightarrow>
                    (case np_set (grains (fmap st)) t s grainIndex of
                       Inl e \<Rightarrow> Inl e
                     | Inr g' \<Rightarrow>
                         Inr \<lparr>fmap = (fmap st)\<lparr>grains := g'\<rparr>,
                              currentGrain = addPoint (currentGrain st) (s, t) maxShear,
                              newedge = newedge st @ [(s, t)]\<rparr>))
             else if v = - 1 \<and> (s > x \<or> t > y) then
               (case sample (fmap st) (x, y) of
                  Inl e \<Rightarrow> Inl e
                | Inr maxShear \<Rightarrow>
                    (case np_set (grains (fmap st)) t s grainIndex of
                       Inl e \<Rightarrow> Inl e
                     | Inr g' \<Rightarrow>
                         Inr \<lparr>fmap = (fmap st)\<lparr>grains := g'\<rparr>,
                              currentGrain = addPoint (currentGrain st) (s, t) maxShear,
                              newedge = newedge st\<rparr>))
             else Inr st))"

text \<open>The body of \<open>for (x, y) in edge\<close>.\<close>

definition visit_moves :: "int \<Rightarrow> fill_state \<Rightarrow> coord \<Rightarrow> error + fill_state" where
  "visit_moves grainIndex st p = foldE (visit grainIndex p) (moves_of (fmap st) p) st"

text \<open>One turn of \<open>while edge\<close> up to the test of \<open>newedge\<close>.\<close>

definition pass :: "int \<Rightarrow> dic_map \<Rightarrow> grain \<Rightarrow> coord list \<Rightarrow> error + fill_state" where
  "pass grainIndex m g edge =
     foldE (visit_moves grainIndex) edge \<lparr>fmap = m, currentGrain = g, newedge = []\<rparr>"

text \<open>
  \<open>while edge\<close>: the loop returns the grain when a turn finds no new frontier; leaving
  the loop by its condition would return Python's \<open>None\<close>.
\<close>

partial_function (option) fill_loop ::
  "int \<Rightarrow> dic_map \<Rightarrow> grain \<Rightarrow> coord list \<Rightarrow> (error + dic_map \<times> grain option) option" where
  "fill_loop grainIndex m g edge =
     (if edge \<noteq> [] then
        (case pass grainIndex m g edge of
           Inl e \<Rightarrow> Some (Inl e)
         | Inr st \<Rightarrow>
             if newedge st = [] then Some (Inr (fmap st, Some (currentGrain st)))
             else fill_loop grainIndex (fmap st) (currentGrain st) (newedge st))
      else Some (Inr (m, None)))"

declare fill_loop.simps [code]

definition floodFill ::
  "dic_map \<Rightarrow> int \<Rightarrow> int \<Rightarrow> int \<Rightarrow> (error + dic_map \<times> grain option) option" where
  "floodFill m x y grainIndex =
     (case sample m (x, y) of
        Inl e \<Rightarrow> Some (Inl e)
      | Inr maxShear \<Rightarrow>
          (case np_set (grains m) y x grainIndex of
             Inl e \<Rightarrow> Some (Inl e)
           | Inr g' \<Rightarrow>
               fill_loop grainIndex (m\<lparr>grains := g'\<rparr>) (addPoint Grain (x, y) maxShear)
                 [(x, y)]))"

section \<open>Segmentation\<close>

text \<open>Marking the pixels of an undersized grain with \<open>-2\<close>.\<close>

definition purge :: "int ndarray \<Rightarrow> coord list \<Rightarrow> error + int ndarray" where
  "purge g cs = foldE (\<lambda>g coord. np_set g (snd coord) (fst coord) (- 2)) cs g"

text \<open>
  The flood fill of one turn of the loop of \<open>findGrains\<close>:
  \<open>self.floodFill(unknownPoints[1][0], unknownPoints[0][0], grainIndex)\<close>.
\<close>

definition seed_fill ::
  "dic_map \<Rightarrow> int \<Rightarrow> int list \<times> int list \<Rightarrow> (error + dic_map \<times> grain option) option" where
  "seed_fill m grainIndex unknownPoints =
     (case first (snd unknownPoints) of
        Inl e \<Rightarrow> Some (Inl e)
      | Inr x \<Rightarrow>
          (case first (fst unknownPoints) of
             Inl e \<Rightarrow> Some (Inl e)
           | Inr y \<Rightarrow> floodFill m x y grainIndex))"

text \<open>
  The body of the loop of \<open>findGrains\<close>: the map, the grain counter and the unknown
  points after one turn. \<open>len\<close> of Python's \<open>None\<close> raises TypeError.
\<close>

definition findGrains_body ::
  "int \<Rightarrow> dic_map \<Rightarrow> int \<Rightarrow> int list \<times> int list
    \<Rightarrow> (error + dic_map \<times> int \<times> (int list \<times> int list)) option" where
  "findGrains_body minGrainSize m grainIndex unknownPoints =
     (case seed_fill m grainIndex unknownPoints of
        None \<Rightarrow> None
      | Some (Inl e) \<Rightarrow> Some (Inl e)
      | Some (Inr (m1, None)) \<Rightarrow> Some (Inl TypeError)
      | Some (Inr (m1, Some cg)) \<Rightarrow>
          if len cg < minGrainSize then
            (case purge (grains m1) (coordList cg) of
               Inl e \<Rightarrow> Some (Inl e)
             | Inr g' \<Rightarrow> Some (Inr (m1\<lparr>grains := g'\<rparr>, grainIndex, np_where_eq g' 0)))
          else
            Some (Inr (m1\<lparr>grainList := grainList m1 @ [cg]\<rparr>, grainIndex + 1,
                       np_where_eq (grains m1) 0)))"

text \<open>
  The loop of \<open>findGrains\<close> over the unknown points; it returns the map and the grain
  counter.
\<close>

partial_function (option) findGrains_loop ::
  "int \<Rightarrow> dic_map \<Rightarrow> int \<Rightarrow> int list \<times> int list \<Rightarrow> (error + dic_map \<times> int) option" where
  "findGrains_loop minGrainSize m grainIndex unknownPoints =
     (if length (fst unknownPoints) > 0 then
        (case findGrains_body minGrainSize m grainIndex unknownPoints of
           None \<Rightarrow> None
         | Some (Inl e) \<Rightarrow> Some (Inl e)
         | Some (Inr (m', grainIndex', unknownPoints')) \<Rightarrow>
             findGrains_loop minGrainSize m' grainIndex' unknownPoints')
      else Some (Inr (m, grainIndex)))"

declare findGrains_loop.simps [code]

text \<open>
  The label grid \<open>-boundaries.astype(int)\<close> of a boolean mask: \<open>-1\<close> on the boundary and
  \<open>0\<close> elsewhere.
\<close>

definition label_grid :: "bool ndarray \<Rightarrow> int ndarray" where
  "label_grid boundaries = map (map (\<lambda>b. - (if b then 1 else 0))) boundaries"

text \<open>
  \<open>findGrains\<close> up to the end of its first loop. The property \<open>boundaries\<close> builds its
  array with scikit-image (warp, skeletonize, remove_small_objects) and ends with
  \<open>-boundaries.astype(int)\<close>; the boolean mask before that last step is the argument.
\<close>

definition findGrains_start :: "dic_map \<Rightarrow> bool ndarray \<Rightarrow> dic_map" where
  "findGrains_start m boundaries = m\<lparr>grains := label_grid boundaries, grainList := []\<rparr>"

definition findGrains :: "dic_map \<Rightarrow> bool ndarray \<Rightarrow> int \<Rightarrow> (error + dic_map) option" where
  "findGrains m boundaries minGrainSize =
     (let m0 = findGrains_start m boundaries
      in (case findGrains_loop minGrainSize m0 1 (np_where_eq (grains m0) 0) of
            None \<Rightarrow> None
          | Some (Inl e) \<Rightarrow> Some (Inl e)
          | Some (Inr (m', grainIndex)) \<Rightarrow> Some (Inr m')))"

section \<open>Correspondence with the EBSD grains\<close>





section \<open>Vocabulary of the statements\<close>

text \<open>
  A grid has the cropped shape of the map; a pixel lies inside the cropped grid; the
  label of a pixel; a grid with one label replaced.
\<close>

definition rect :: "dic_map \<Rightarrow> 'a ndarray \<Rightarrow> bool" where
  "rect m g \<longleftrightarrow> int (length g) = yDim m \<and> (\<forall>row\<in>set g. int (length row) = xDim m)"

definition inside :: "dic_map \<Rightarrow> coord \<Rightarrow> bool" where
  "inside m p \<longleftrightarrow> 0 \<le> fst p \<and> fst p < xDim m \<and> 0 \<le> snd p \<and> snd p < yDim m"

definition cell :: "'a ndarray \<Rightarrow> coord \<Rightarrow> 'a" where
  "cell g p = g ! nat (snd p) ! nat (fst p)"

definition grid_set :: "'a ndarray \<Rightarrow> coord \<Rightarrow> 'a \<Rightarrow> 'a ndarray" where
  "grid_set g p v = g[nat (snd p) := (g ! nat (snd p))[nat (fst p) := v]]"

text \<open>The number of cells of a grid that hold the label 0.\<close>

definition zeros :: "int ndarray \<Rightarrow> nat" where
  "zeros g = sum_list (map (\<lambda>row. count_list row 0) g)"

text \<open>
  Two pixels are 4-adjacent; \<open>q\<close> is the right or the lower neighbour of \<open>p\<close> (the
  neighbours with a larger x or a larger y).
\<close>

definition adjacent :: "coord \<Rightarrow> coord \<Rightarrow> bool" where
  "adjacent p q \<longleftrightarrow>
     q = (fst p + 1, snd p) \<or> q = (fst p - 1, snd p) \<or> q = (fst p, snd p + 1)
     \<or> q = (fst p, snd p - 1)"

definition forward :: "coord \<Rightarrow> coord \<Rightarrow> bool" where
  "forward p q \<longleftrightarrow> q = (fst p + 1, snd p) \<or> q = (fst p, snd p + 1)"

text \<open>
  \<open>conn S p0 p\<close>: the pixel \<open>p\<close> is reached from \<open>p0\<close> by 4-adjacent steps, each
  onto a pixel of the set \<open>S\<close>.
\<close>

inductive conn :: "coord set \<Rightarrow> coord \<Rightarrow> coord \<Rightarrow> bool"
  for S :: "coord set" and p0 :: coord where
  conn_seed: "conn S p0 p0"
| conn_step: "conn S p0 p \<Longrightarrow> adjacent p q \<Longrightarrow> q \<in> S \<Longrightarrow> conn S p0 q"

text \<open>
  The scalar field covers the cropped grid: every pixel inside has a sample.
\<close>

definition field_ok :: "dic_map \<Rightarrow> bool" where
  "field_ok m \<longleftrightarrow> (\<forall>p. inside m p \<longrightarrow> (\<exists>v. sample m p = Inr v))"

text \<open>Two maps differ at most in their label grid.\<close>

definition same_frame :: "dic_map \<Rightarrow> dic_map \<Rightarrow> bool" where
  "same_frame m m0 \<longleftrightarrow> m\<lparr>grains := []\<rparr> = m0\<lparr>grains := []\<rparr>"

text \<open>
  The invariant of one flood fill that started on the map \<open>m0\<close> at the seed \<open>p0\<close> with
  the label \<open>k\<close>. \<open>m\<close> and \<open>gr\<close> are the map and the grain as the fill has them now,
  \<open>L\<close> lists the frontier pixels still to be handled (the one being handled first),
  and \<open>W\<close> holds the forward neighbours of that pixel already visited. It says: only
  the label grid of the map has changed and it keeps its shape; the pixels of the grain
  are exactly the relabelled ones, they held 0 or -1 before, and none occurs twice; the
  frontier consists of distinct pixels of the grain that held 0; every pixel of the
  grain that held 0 is connected to the seed through pixels of the grain that held 0; and a boundary pixel
  is in the grain exactly when a pixel of the grain that held 0 and is no longer on the
  frontier has it as right or lower neighbour.
\<close>

definition fill_inv ::
  "dic_map \<Rightarrow> int \<Rightarrow> coord \<Rightarrow> coord list \<Rightarrow> coord set \<Rightarrow> dic_map \<Rightarrow> grain \<Rightarrow> bool" where
  "fill_inv m0 k p0 L W m gr \<longleftrightarrow>
     same_frame m m0
   \<and> rect m0 (grains m)
   \<and> (\<forall>p. inside m0 p \<longrightarrow>
          cell (grains m) p = (if p \<in> set (coordList gr) then k else cell (grains m0) p))
   \<and> (\<forall>p\<in>set (coordList gr).
          inside m0 p \<and> (cell (grains m0) p = 0 \<or> cell (grains m0) p = - 1))
   \<and> distinct (coordList gr)
   \<and> length (maxShearList gr) = length (coordList gr)
   \<and> p0 \<in> set (coordList gr)
   \<and> distinct L
   \<and> (\<forall>p\<in>set L. p \<in> set (coordList gr) \<and> cell (grains m0) p = 0)
   \<and> (\<forall>p\<in>set (coordList gr). cell (grains m0) p = 0 \<longrightarrow> conn {r \<in> set (coordList gr). cell (grains m0) r = 0} p0 p)
   \<and> (\<forall>b. inside m0 b \<longrightarrow> cell (grains m0) b = - 1 \<longrightarrow>
          (b \<in> set (coordList gr) \<longleftrightarrow>
             (\<exists>q\<in>set (coordList gr). cell (grains m0) q = 0 \<and> forward q b \<and> q \<notin> set L)
             \<or> b \<in> W))"

text \<open>
  The map is large enough for the edge tests of the fill, and the scalar field covers
  it.
\<close>

definition good_map :: "dic_map \<Rightarrow> bool" where
  "good_map m \<longleftrightarrow> 2 \<le> xDim m \<and> 2 \<le> yDim m \<and> field_ok m"

text \<open>
  The map on which segmentation starts: its label grid has the cropped shape and holds
  only 0 and -1, and it has no grain yet.
\<close>

definition start_ok :: "dic_map \<Rightarrow> bool" where
  "start_ok mb \<longleftrightarrow>
     rect mb (grains mb) \<and> grainList mb = []
   \<and> (\<forall>p. inside mb p \<longrightarrow> cell (grains mb) p = 0 \<or> cell (grains mb) p = - 1)"

text \<open>
  The invariant of the loop of \<open>findGrains\<close> that started on the map \<open>mb\<close> with the
  threshold \<open>n\<close>; \<open>m\<close> is the map now and \<open>gi\<close> the grain counter. It says: only the
  label grid and the grain list have changed; the counter is the number of grains plus
  one; every label is at least -2 and below the counter; every grain of the list is not
  empty, has distinct pixels, one sample per pixel and at least \<open>n\<close> pixels; the pixels
  of the grain with index \<open>i\<close> are exactly the pixels labelled \<open>i + 1\<close>; a boundary
  pixel is never unknown and a pixel off the boundary never holds -1; and a boundary
  pixel has lost the label -1 exactly when its left or upper neighbour is a pixel off
  the boundary that is no longer unknown, and then it holds the label of such a
  neighbour.
\<close>

definition seg_inv :: "dic_map \<Rightarrow> int \<Rightarrow> dic_map \<Rightarrow> int \<Rightarrow> bool" where
  "seg_inv mb n m gi \<longleftrightarrow>
     same_frame (m\<lparr>grainList := []\<rparr>) mb
   \<and> rect mb (grains m)
   \<and> gi = int (length (grainList m)) + 1
   \<and> (\<forall>p. inside mb p \<longrightarrow> - 2 \<le> cell (grains m) p \<and> cell (grains m) p < gi)
   \<and> (\<forall>gr\<in>set (grainList m).
          coordList gr \<noteq> [] \<and> distinct (coordList gr)
        \<and> length (maxShearList gr) = length (coordList gr) \<and> n \<le> len gr)
   \<and> (\<forall>i<length (grainList m). \<forall>p.
          p \<in> set (coordList (grainList m ! i))
            \<longleftrightarrow> inside mb p \<and> cell (grains m) p = int i + 1)
   \<and> (\<forall>p. inside mb p \<longrightarrow>
          (cell (grains mb) p = - 1 \<longrightarrow> cell (grains m) p \<noteq> 0)
        \<and> (cell (grains mb) p = 0 \<longrightarrow> cell (grains m) p \<noteq> - 1))
   \<and> (\<forall>b. inside mb b \<longrightarrow> cell (grains mb) b = - 1 \<longrightarrow>
          (cell (grains m) b \<noteq> - 1 \<longleftrightarrow>
             (\<exists>q. inside mb q \<and> cell (grains mb) q = 0 \<and> forward q b
                  \<and> cell (grains m) q \<noteq> 0)))
   \<and> (\<forall>b. inside mb b \<longrightarrow> cell (grains mb) b = - 1 \<longrightarrow> cell (grains m) b \<noteq> - 1 \<longrightarrow>
          (\<exists>q. inside mb q \<and> cell (grains mb) q = 0 \<and> forward q b
               \<and> cell (grains m) q = cell (grains m) b))"

text \<open>
  The states of the loop of \<open>findGrains\<close>: the map, the grain counter and the unknown
  points at the loop test, from the state \<open>s0\<close> on.
\<close>

inductive seg_reach ::
  "int \<Rightarrow> dic_map \<times> int \<times> (int list \<times> int list)
    \<Rightarrow> dic_map \<times> int \<times> (int list \<times> int list) \<Rightarrow> bool"
  for n :: int and s0 :: "dic_map \<times> int \<times> (int list \<times> int list)" where
  reach_start: "seg_reach n s0 s0"
| reach_turn: "seg_reach n s0 (m, k, up) \<Longrightarrow> fst up \<noteq> []
               \<Longrightarrow> findGrains_body n m k up = Some (Inr s') \<Longrightarrow> seg_reach n s0 s'"

text \<open>
  A 3 x 3 map without crop margins; the mask whose middle column is boundary; the map
  that \<open>findGrains\<close> returns for them with the threshold 4; the mask that is all
  boundary.
\<close>

definition strip_map :: dic_map where
  "strip_map =
     \<lparr>xdim = 3, ydim = 3, xDim = 3, yDim = 3, cropDists = ((0, 0), (0, 0)),
      max_shear = [[1, 2, 3], [4, 5, 6], [7, 8, 9]], homogPoints = [], ebsdMap = None,
      ebsdTransform = None, grains = [], grainList = [], ebsdGrainIds = []\<rparr>"

definition strip_mask :: "bool ndarray" where
  "strip_mask = [[False, True, False], [False, True, False], [False, True, False]]"

definition strip_result :: dic_map where
  "strip_result =
     strip_map\<lparr>grains := [[1, 1, - 2], [1, 1, - 2], [1, 1, - 2]],
       grainList := [\<lparr>coordList = [(0, 0), (1, 0), (0, 1), (1, 1), (0, 2), (1, 2)],
                      maxShearList = [1, 1, 1, 4, 4, 7],
                      ebsdGrainId = None, ebsdGrain = None\<rparr>]\<rparr>"

definition wall_mask :: "bool ndarray" where
  "wall_mask = [[True, True, True], [True, True, True], [True, True, True]]"

text \<open>
  A mask of two blocks off the boundary separated by one straight line of boundary
  pixels: the column \<open>c\<close>, or the row \<open>c\<close>, with a block on either side.
\<close>

definition vertical_line :: "dic_map \<Rightarrow> bool ndarray \<Rightarrow> int \<Rightarrow> bool" where
  "vertical_line m boundaries c \<longleftrightarrow>
     rect m boundaries \<and> 0 < c \<and> c < xDim m - 1
   \<and> (\<forall>p. inside m p \<longrightarrow> cell boundaries p = (fst p = c))"

definition horizontal_line :: "dic_map \<Rightarrow> bool ndarray \<Rightarrow> int \<Rightarrow> bool" where
  "horizontal_line m boundaries c \<longleftrightarrow>
     rect m boundaries \<and> 0 < c \<and> c < yDim m - 1
   \<and> (\<forall>p. inside m p \<longrightarrow> cell boundaries p = (snd p = c))"

section \<open>Concrete maps\<close>

text \<open>A 2 x 2 map without crop margins whose scalar field has four different values.\<close>

definition demo_map :: dic_map where
  "demo_map =
     \<lparr>xdim = 2, ydim = 2, xDim = 2, yDim = 2, cropDists = ((0, 0), (0, 0)),
      max_shear = [[1, 2], [3, 4]], homogPoints = [], ebsdMap = None,
      ebsdTransform = None, grains = [[0, 0], [0, 0]], grainList = [],
      ebsdGrainIds = []\<rparr>"

text \<open>
  An estimator that reports an unusable point set through its success flag, as the
  interface of \<open>estimate\<close> allows, and never raises.
\<close>

definition flag_estimate ::
  "(real \<times> real) list \<Rightarrow> (real \<times> real) list \<Rightarrow> error + real ndarray \<times> bool" where
  "flag_estimate src dst =
     Inr ([[1, 0, 0], [0, 1, 0], [0, 0, 1]], length src = length dst \<and> 3 \<le> length src)"

text \<open>
  An EBSD map of one row that is all background, with two grains and two homologous
  points; a DIC map with two homologous points.
\<close>

definition two_point_ebsd :: ebsd_map where
  "two_point_ebsd = \<lparr>ebsd_homogPoints = [(0, 0), (2, 2)], ebsd_grains = [[0, 0]],
      ebsd_grainList = [EbsdGrain 0, EbsdGrain 1]\<rparr>"

definition two_point_map :: dic_map where
  "two_point_map = demo_map\<lparr>homogPoints := [(0, 0), (1, 1)]\<rparr>"













section \<open>Iteration that can raise\<close>


section \<open>The scalar sample of an absorbed pixel\<close>

text \<open>
  Claim C1. The sample stored with an absorbed pixel should be the scalar field at that
  pixel's own coordinates. On the 2 x 2 map without boundary, the fill from (0, 0)
  absorbs (1, 0), (0, 1) and (1, 1) and stores with them the field values 1, 1 and 2,
  which are the values at the frontier pixels they were reached from; the field at their
  own coordinates is 2, 3 and 4.
\<close>

theorem floodFill_samples_frontier_pixel:
  "floodFill demo_map 0 0 1 =
     Some (Inr (demo_map\<lparr>grains := [[1, 1], [1, 1]]\<rparr>,
                Some \<lparr>coordList = [(0, 0), (1, 0), (0, 1), (1, 1)],
                      maxShearList = [1, 1, 1, 2],
                      ebsdGrainId = None, ebsdGrain = None\<rparr>))
   \<and> map (sample demo_map) [(0, 0), (1, 0), (0, 1), (1, 1)] = [Inr 1, Inr 2, Inr 3, Inr 4]"
  by code_simp

section \<open>The crop window\<close>

text \<open>
  Claim C9. The cropped grid should have the full size minus the margins, also when a
  right or bottom margin is 0. With all four margins 0 on the 2 x 2 map, \<open>setCrop\<close>
  records the size 2 x 2, and \<open>crop\<close> returns the array without any row: the
  stop \<open>-0\<close> of the slice is the start of the axis.
\<close>

theorem crop_zero_margin_is_empty:
  "setCrop demo_map (Some 0) (Some 0) (Some 0) (Some 0) = Inr demo_map
   \<and> (yDim demo_map, xDim demo_map) = (2, 2)
   \<and> crop demo_map [[1, 2], [3, 4 :: int]] = []
   \<and> crop_shape demo_map (2, 2) = (0, 0)"
  by (simp add: setCrop_def demo_map_def crop_def py_slice_def slice_bound_def
        crop_shape_def slice_length_def)

section \<open>The mode of a list of labels\<close>









section \<open>Correspondence: what is recorded for a grain\<close>


section \<open>Estimating the transform\<close>

text \<open>
  Claim C8, as the code has it. \<open>linkEbsdMap\<close> and \<open>warpToDicFrame\<close> check nothing:
  they raise exactly when the estimator raises, with its exception, and when the
  estimator returns they store its parameters, whatever the point lists and the flag.
\<close>

theorem linkEbsdMap_surfaces_estimator_result:
  "(linkEbsdMap estimate m e = Inl err \<longleftrightarrow>
      estimate (homogPoints m) (ebsd_homogPoints e) = Inl err)
   \<and> (estimate (homogPoints m) (ebsd_homogPoints e) = Inr (params, ok) \<longrightarrow>
        linkEbsdMap estimate m e = Inr (m\<lparr>ebsdMap := Some e, ebsdTransform := Some params\<rparr>))
   \<and> (ebsdTransform m = Some t \<and> ebsdMap m = Some e \<longrightarrow>
        (warpToDicFrame_estimate estimate m = Inl err \<longleftrightarrow>
           estimate (homogPoints m) (ebsd_homogPoints e) = Inl err)
      \<and> (estimate (homogPoints m) (ebsd_homogPoints e) = Inr (params, ok) \<longrightarrow>
           warpToDicFrame_estimate estimate m = Inr (m\<lparr>ebsdTransform := Some params\<rparr>)))"
  by (auto simp: linkEbsdMap_def warpToDicFrame_estimate_def split: sum.splits prod.splits)

text \<open>
  Claim C8 as stated fails: with two point pairs and an estimator that returns, the link
  is made and the flag \<open>False\<close> is dropped.
\<close>

theorem linkEbsdMap_accepts_two_points:
  "length (homogPoints two_point_map) = 2 \<and> length (ebsd_homogPoints two_point_ebsd) = 2
   \<and> linkEbsdMap flag_estimate two_point_map two_point_ebsd =
       Inr (two_point_map\<lparr>ebsdMap := Some two_point_ebsd,
              ebsdTransform := Some [[1, 0, 0], [0, 1, 0], [0, 0, 1]]\<rparr>)
   \<and> flag_estimate (homogPoints two_point_map) (ebsd_homogPoints two_point_ebsd) =
       Inr ([[1, 0, 0], [0, 1, 0], [0, 0, 1]], False)"
  by (simp add: linkEbsdMap_def flag_estimate_def two_point_map_def two_point_ebsd_def demo_map_def)

theorem linkEbsdMap_surfaces_estimator_result_witness:
  "linkEbsdMap (\<lambda>src dst. Inl TypeError) demo_map two_point_ebsd = Inl TypeError
   \<and> linkEbsdMap flag_estimate demo_map two_point_ebsd =
       Inr (demo_map\<lparr>ebsdMap := Some two_point_ebsd,
              ebsdTransform := Some [[1, 0, 0], [0, 1, 0], [0, 0, 1]]\<rparr>)"
  using linkEbsdMap_surfaces_estimator_result
          [of "\<lambda>src dst. Inl TypeError" demo_map two_point_ebsd TypeError]
        linkEbsdMap_surfaces_estimator_result
          [of flag_estimate demo_map two_point_ebsd _ "[[1, 0, 0], [0, 1, 0], [0, 0, 1]]" False]
  by (simp add: flag_estimate_def demo_map_def two_point_ebsd_def)

section \<open>Grids\<close>

lemma np_index_nonneg:
  "0 \<le> i \<Longrightarrow> np_index n i = Inr j \<longleftrightarrow> i < int n \<and> j = nat i"
  by (auto simp: np_index_def)

lemma rect_row: "rect m g \<Longrightarrow> i < length g \<Longrightarrow> int (length (g ! i)) = xDim m"
  by (simp add: rect_def)

lemma np_get_Inr:
  assumes "rect m g" "0 \<le> s" "0 \<le> t" "np_get g t s = Inr v"
  shows "inside m (s, t) \<and> v = cell g (s, t)"
proof -
  from assms(4) obtain i j where i: "np_index (length g) t = Inr i"
    and j: "np_index (length (g ! i)) s = Inr j" and v: "v = g ! i ! j"
    by (auto simp: np_get_def split: sum.splits)
  from i assms(3) have ti: "t < int (length g)" "i = nat t" by (auto simp: np_index_nonneg)
  then have "i < length g" using assms(3) by linarith
  with assms(1) have row: "int (length (g ! i)) = xDim m" by (rule rect_row)
  from j assms(2) have "s < int (length (g ! i))" "j = nat s" by (auto simp: np_index_nonneg)
  with row ti assms v show ?thesis by (simp add: inside_def cell_def rect_def)
qed

lemma np_get_inside:
  assumes "rect m g" "inside m (s, t)"
  shows "np_get g t s = Inr (cell g (s, t))"
proof -
  from assms have t: "0 \<le> t" "t < int (length g)" and s: "0 \<le> s" "s < xDim m"
    by (auto simp: rect_def inside_def)
  then have "nat t < length g" by linarith
  with assms(1) have "int (length (g ! nat t)) = xDim m" by (rule rect_row)
  with t s show ?thesis by (simp add: np_get_def np_index_def cell_def)
qed

lemma np_set_Inr:
  assumes "rect m g" "0 \<le> s" "0 \<le> t" "np_set g t s v = Inr g'"
  shows "inside m (s, t) \<and> g' = grid_set g (s, t) v"
proof -
  from assms(4) obtain i j where i: "np_index (length g) t = Inr i"
    and j: "np_index (length (g ! i)) s = Inr j" and v: "g' = g[i := (g ! i)[j := v]]"
    by (auto simp: np_set_def split: sum.splits)
  from i assms(3) have ti: "t < int (length g)" "i = nat t" by (auto simp: np_index_nonneg)
  then have "i < length g" using assms(3) by linarith
  with assms(1) have row: "int (length (g ! i)) = xDim m" by (rule rect_row)
  from j assms(2) have "s < int (length (g ! i))" "j = nat s" by (auto simp: np_index_nonneg)
  with row ti assms v show ?thesis by (simp add: inside_def grid_set_def rect_def)
qed

lemma np_set_inside:
  assumes "rect m g" "inside m (s, t)"
  shows "np_set g t s v = Inr (grid_set g (s, t) v)"
proof -
  from assms have t: "0 \<le> t" "t < int (length g)" and s: "0 \<le> s" "s < xDim m"
    by (auto simp: rect_def inside_def)
  then have "nat t < length g" by linarith
  with assms(1) have "int (length (g ! nat t)) = xDim m" by (rule rect_row)
  with t s show ?thesis by (simp add: np_set_def np_index_def grid_set_def)
qed

lemma rect_grid_set:
  assumes "rect m g"
  shows "rect m (grid_set g p v)"
proof (cases "nat (snd p) < length g")
  case True
  then have "g ! nat (snd p) \<in> set g" by simp
  with assms have "int (length ((g ! nat (snd p))[nat (fst p) := v])) = xDim m"
    by (simp add: rect_def)
  with assms show ?thesis
    by (auto simp: rect_def grid_set_def dest!: set_update_subset_insert[THEN subsetD])
next
  case False
  then have "length g \<le> nat (snd p)" by simp
  with assms show ?thesis by (simp add: grid_set_def list_update_beyond)
qed

lemma cell_grid_set:
  assumes "rect m g" "inside m p" "inside m q"
  shows "cell (grid_set g p v) q = (if q = p then v else cell g q)"
proof -
  obtain a b where p: "p = (a, b)" by (cases p)
  obtain c d where q: "q = (c, d)" by (cases q)
  from assms p q have bnd: "0 \<le> a" "0 \<le> b" "0 \<le> c" "0 \<le> d" "nat b < length g" "nat d < length g"
    "a < xDim m" "c < xDim m"
    by (auto simp: inside_def rect_def)
  from assms(1) bnd have rows: "int (length (g ! nat b)) = xDim m" "int (length (g ! nat d)) = xDim m"
    by (auto intro: rect_row)
  show ?thesis
  proof (cases "d = b")
    case True
    with bnd rows show ?thesis
      by (auto simp: cell_def grid_set_def p q nth_list_update)
  next
    case False
    with bnd have "nat d \<noteq> nat b" by linarith
    with bnd False show ?thesis
      by (auto simp: cell_def grid_set_def p q nth_list_update)
  qed
qed

text \<open>Writing the label grid leaves all that the fill reads of the map.\<close>

lemma rect_update [simp]: "rect (m\<lparr>grains := g'\<rparr>) g = rect m g"
  by (simp add: rect_def)

lemma inside_update [simp]: "inside (m\<lparr>grains := g'\<rparr>) p = inside m p"
  by (simp add: inside_def)

lemma sample_update [simp]: "sample (m\<lparr>grains := g'\<rparr>) p = sample m p"
  by (simp add: sample_def)

lemma moves_of_update [simp]: "moves_of (m\<lparr>grains := g'\<rparr>) p = moves_of m p"
  by (cases p) (simp add: moves_of_def Let_def)

section \<open>Moves\<close>

lemma moves_of_props:
  assumes "inside m p" "q \<in> set (moves_of m p)"
  shows "adjacent p q \<and> 0 \<le> fst q \<and> 0 \<le> snd q"
  using assms
  by (cases p) (auto simp: moves_of_def np_delete_def inside_def adjacent_def Let_def split: if_splits)

lemma moves_of_forward:
  assumes "inside m p" "inside m b" "forward p b"
  shows "b \<in> set (moves_of m p)"
  using assms
  by (cases p) (auto simp: moves_of_def np_delete_def inside_def forward_def Let_def split: if_splits)

lemma moves_of_inside:
  assumes "inside m p" "2 \<le> xDim m" "2 \<le> yDim m" "q \<in> set (moves_of m p)"
  shows "inside m q"
  using assms
  by (cases p) (auto simp: moves_of_def np_delete_def inside_def Let_def split: if_splits)

section \<open>Iteration that can raise, continued\<close>

text \<open>
  The invariant may speak of the elements already handled and of those still to come.
  The first rule is for a loop that is known to have returned, the second shows that it
  returns.
\<close>

lemma foldE_rule:
  assumes "foldE f xs s0 = Inr s'" and "I [] xs s0"
    and "\<And>pre x rest s s1. xs = pre @ x # rest \<Longrightarrow> I pre (x # rest) s \<Longrightarrow> f s x = Inr s1
           \<Longrightarrow> I (pre @ [x]) rest s1"
  shows "I xs [] s'"
proof -
  have "\<And>pre s. xs = pre @ ys \<Longrightarrow> I pre ys s \<Longrightarrow> foldE f ys s = Inr s' \<Longrightarrow> I xs [] s'" for ys
  proof (induction ys)
    case Nil
    then show ?case by simp
  next
    case (Cons y ys)
    from Cons.prems(3) obtain s1 where s1: "f s y = Inr s1" "foldE f ys s1 = Inr s'"
      by (auto split: sum.splits)
    from assms(3)[OF Cons.prems(1) Cons.prems(2) s1(1)] have "I (pre @ [y]) ys s1" .
    with Cons.IH[of "pre @ [y]" s1] Cons.prems(1) s1(2) show ?case by simp
  qed
  from this[of "[]" xs s0] assms(1,2) show ?thesis by simp
qed

lemma foldE_total:
  assumes "I [] xs s0"
    and "\<And>pre x rest s. xs = pre @ x # rest \<Longrightarrow> I pre (x # rest) s
           \<Longrightarrow> \<exists>s1. f s x = Inr s1 \<and> I (pre @ [x]) rest s1"
  shows "\<exists>s'. foldE f xs s0 = Inr s' \<and> I xs [] s'"
proof -
  have "\<And>pre s. xs = pre @ ys \<Longrightarrow> I pre ys s \<Longrightarrow> \<exists>s'. foldE f ys s = Inr s' \<and> I xs [] s'" for ys
  proof (induction ys)
    case Nil
    then show ?case by simp
  next
    case (Cons y ys)
    from assms(2)[OF Cons.prems(1) Cons.prems(2)]
    obtain s1 where s1: "f s y = Inr s1" "I (pre @ [y]) ys s1" by blast
    from Cons.IH[of "pre @ [y]" s1] Cons.prems(1) s1(2)
    obtain s' where "foldE f ys s1 = Inr s'" "I xs [] s'" by auto
    with s1(1) show ?case by simp
  qed
  from this[of "[]" xs s0] assms(1) show ?thesis by simp
qed

section \<open>Counting the unknown pixels\<close>

lemma count_list_update:
  "j < length xs \<Longrightarrow>
     count_list (xs[j := v]) a + (if xs ! j = a then 1 else 0)
       = count_list xs a + (if v = a then 1 else 0)"
proof (induction xs arbitrary: j)
  case Nil
  then show ?case by simp
next
  case (Cons x xs)
  show ?case
  proof (cases j)
    case 0
    then show ?thesis by auto
  next
    case (Suc n)
    with Cons.prems have "n < length xs" by simp
    from Cons.IH[OF this] Suc show ?thesis by (auto split: if_splits)
  qed
qed

lemma sum_list_map_update:
  "i < length g \<Longrightarrow>
     sum_list (map f (g[i := r])) + f (g ! i) = sum_list (map f g) + (f r :: nat)"
proof (induction g arbitrary: i)
  case Nil
  then show ?case by simp
next
  case (Cons x xs)
  then show ?case by (cases i) auto
qed

lemma np_index_less: "np_index n i = Inr j \<Longrightarrow> j < n"
  by (auto simp: np_index_def split: if_splits)

lemma zeros_np_set:
  assumes "np_get g t s = Inr u" "np_set g t s v = Inr g'"
  shows "zeros g' + (if u = 0 then 1 else 0) = zeros g + (if v = 0 then 1 else 0)"
proof -
  from assms obtain i j where i: "np_index (length g) t = Inr i"
    and j: "np_index (length (g ! i)) s = Inr j" and u: "u = g ! i ! j"
    and g': "g' = g[i := (g ! i)[j := v]]"
    by (auto simp: np_get_def np_set_def split: sum.splits)
  from i j have il: "i < length g" and jl: "j < length (g ! i)"
    by (auto dest: np_index_less)
  from sum_list_map_update[OF il, of "\<lambda>row. count_list row 0" "(g ! i)[j := v]"]
       count_list_update[OF jl, of v 0]
  show ?thesis unfolding zeros_def g' u by (auto split: if_splits)
qed

lemma np_set_of_get:
  "np_get g t s = Inr u \<Longrightarrow> \<exists>g'. np_set g t s v = Inr g'"
  by (auto simp: np_get_def np_set_def split: sum.splits)

text \<open>
  One visit with a label other than 0 keeps the number of unknown pixels plus the
  length of the new frontier.
\<close>

lemma visit_zeros:
  assumes "visit k p st q = Inr st'" "k \<noteq> 0"
  shows "zeros (grains (fmap st')) + length (newedge st')
           = zeros (grains (fmap st)) + length (newedge st)"
proof -
  obtain x y where p: "p = (x, y)" by (cases p)
  obtain s t where q: "q = (s, t)" by (cases q)
  from assms(1) obtain v where v: "np_get (grains (fmap st)) t s = Inr v"
    by (auto simp: visit_def p q split: sum.splits)
  show ?thesis
  proof (cases "v = 0")
    case True
    with assms(1) v obtain ms g' where g': "np_set (grains (fmap st)) t s k = Inr g'"
      and st': "st' = \<lparr>fmap = (fmap st)\<lparr>grains := g'\<rparr>,
                       currentGrain = addPoint (currentGrain st) (s, t) ms,
                       newedge = newedge st @ [(s, t)]\<rparr>"
      by (auto simp: visit_def p q split: sum.splits)
    from zeros_np_set[OF v g'] True assms(2) show ?thesis by (simp add: st')
  next
    case False
    show ?thesis
    proof (cases "v = - 1 \<and> (s > x \<or> t > y)")
      case True
      with assms(1) v False obtain ms g' where g': "np_set (grains (fmap st)) t s k = Inr g'"
        and st': "st' = \<lparr>fmap = (fmap st)\<lparr>grains := g'\<rparr>,
                         currentGrain = addPoint (currentGrain st) (s, t) ms,
                         newedge = newedge st\<rparr>"
        by (auto simp: visit_def p q split: sum.splits)
      from zeros_np_set[OF v g'] True assms(2) show ?thesis by (simp add: st')
    next
      case F2: False
      with assms(1) v False have "st' = st"
        by (auto simp: visit_def p q split: sum.splits)
      then show ?thesis by simp
    qed
  qed
qed

lemma visit_moves_zeros:
  assumes "visit_moves k st p = Inr st'" "k \<noteq> 0"
  shows "zeros (grains (fmap st')) + length (newedge st')
           = zeros (grains (fmap st)) + length (newedge st)"
proof -
  from assms(1) have f: "foldE (visit k p) (moves_of (fmap st) p) st = Inr st'"
    by (simp add: visit_moves_def)
  show ?thesis
    by (rule foldE_rule[OF f, where I = "\<lambda>_ _ s. zeros (grains (fmap s)) + length (newedge s)
           = zeros (grains (fmap st)) + length (newedge st)"])
       (auto dest: visit_zeros[OF _ assms(2)])
qed

lemma pass_zeros:
  assumes "pass k m g edge = Inr st'" "k \<noteq> 0"
  shows "zeros (grains (fmap st')) + length (newedge st') = zeros (grains m)"
proof -
  let ?s0 = "\<lparr>fmap = m, currentGrain = g, newedge = []\<rparr>"
  from assms(1) have f: "foldE (visit_moves k) edge ?s0 = Inr st'"
    by (simp add: pass_def)
  have "zeros (grains (fmap st')) + length (newedge st')
           = zeros (grains (fmap ?s0)) + length (newedge ?s0)"
    by (rule foldE_rule[OF f, where I = "\<lambda>_ _ s. zeros (grains (fmap s)) + length (newedge s)
           = zeros (grains (fmap ?s0)) + length (newedge ?s0)"])
       (auto dest: visit_moves_zeros[OF _ assms(2)])
  then show ?thesis by simp
qed

text \<open>
  The fill returns for every label other than 0, and never adds an unknown pixel.
\<close>

lemma fill_loop_returns:
  assumes "k \<noteq> 0"
  shows "\<exists>r. fill_loop k m g edge = Some r
           \<and> (\<forall>m' og. r = Inr (m', og) \<longrightarrow> zeros (grains m') \<le> zeros (grains m))"
proof (induction "zeros (grains m)" arbitrary: m g edge rule: less_induct)
  case less
  show ?case
  proof (cases "edge = []")
    case True
    then show ?thesis by (simp add: fill_loop.simps)
  next
    case ne: False
    show ?thesis
    proof (cases "pass k m g edge")
      case (Inl e)
      with ne show ?thesis by (simp add: fill_loop.simps)
    next
      case (Inr st)
      from pass_zeros[OF Inr assms]
      have z: "zeros (grains (fmap st)) + length (newedge st) = zeros (grains m)" .
      show ?thesis
      proof (cases "newedge st = []")
        case True
        with ne Inr z show ?thesis by (simp add: fill_loop.simps)
      next
        case False
        with z have lt: "zeros (grains (fmap st)) < zeros (grains m)"
          by (cases "newedge st") auto
        from less[OF lt, of "currentGrain st" "newedge st"] lt
        have "\<exists>r. fill_loop k (fmap st) (currentGrain st) (newedge st) = Some r
           \<and> (\<forall>m' og. r = Inr (m', og) \<longrightarrow> zeros (grains m') \<le> zeros (grains m))"
          by force
        moreover have "fill_loop k m g edge = fill_loop k (fmap st) (currentGrain st) (newedge st)"
          using ne Inr False by (subst fill_loop.simps) simp
        ultimately show ?thesis by simp
      qed
    qed
  qed
qed

section \<open>The unknown points\<close>

lemma np_where_eq_hit:
  assumes "(r, c) \<in> set (zip (fst (np_where_eq g v)) (snd (np_where_eq g v)))"
  shows "\<exists>i j. r = int i \<and> c = int j \<and> i < length g \<and> j < length (g ! i) \<and> g ! i ! j = v"
  using assms by (auto simp: np_where_eq_def Let_def zip_map_fst_snd)

lemma np_where_eq_first:
  assumes "fst (np_where_eq g v) \<noteq> []"
  shows "\<exists>x y. first (snd (np_where_eq g v)) = Inr x \<and> first (fst (np_where_eq g v)) = Inr y
           \<and> np_get g y x = Inr v"
proof -
  define hits where "hits = concat (map (\<lambda>i. map (\<lambda>j. (int i, int j))
                                (filter (\<lambda>j. g ! i ! j = v) [0..<length (g ! i)]))
                         [0..<length g])"
  have w: "np_where_eq g v = (map fst hits, map snd hits)"
    by (simp add: np_where_eq_def hits_def Let_def)
  with assms obtain h hs where h: "hits = h # hs" by (cases hits) auto
  obtain r c where rc: "h = (r, c)" by (cases h)
  have "(r, c) \<in> set (zip (fst (np_where_eq g v)) (snd (np_where_eq g v)))"
    by (simp add: w h rc)
  from np_where_eq_hit[OF this] obtain i j where ij: "r = int i" "c = int j" "i < length g"
    "j < length (g ! i)" "g ! i ! j = v" by blast
  then have "np_get g r c = Inr v" by (simp add: np_get_def np_index_def)
  then show ?thesis by (simp add: w h rc first_def)
qed

lemma np_where_eq_empty:
  assumes "fst (np_where_eq g v) = []" "i < length g" "j < length (g ! i)"
  shows "g ! i ! j \<noteq> v"
proof
  assume "g ! i ! j = v"
  with assms(2,3) have "(int i, int j) \<in> set (zip (fst (np_where_eq g v)) (snd (np_where_eq g v)))"
    by (auto simp: np_where_eq_def Let_def zip_map_fst_snd)
  with assms(1) show False by simp
qed

section \<open>Segmentation returns\<close>

lemma np_get_of_set:
  "np_set g t s v = Inr g' \<Longrightarrow> \<exists>u. np_get g t s = Inr u"
  by (auto simp: np_get_def np_set_def split: sum.splits)

lemma purge_zeros:
  assumes "purge g cs = Inr g'"
  shows "zeros g' \<le> zeros g"
proof -
  from assms have f: "foldE (\<lambda>g coord. np_set g (snd coord) (fst coord) (- 2)) cs g = Inr g'"
    by (simp add: purge_def)
  have step: "zeros b \<le> zeros a" if "np_set a t s (- 2) = Inr b" for a b t s
  proof -
    from np_get_of_set[OF that] obtain u where "np_get a t s = Inr u" by blast
    from zeros_np_set[OF this that] show ?thesis by (simp split: if_splits)
  qed
  show ?thesis
    by (rule foldE_rule[OF f, where I = "\<lambda>_ _ s. zeros s \<le> zeros g"])
       (auto dest: step)
qed

lemma floodFill_returns:
  assumes "np_get (grains m) y x = Inr 0" "k \<noteq> 0"
  shows "\<exists>r. floodFill m x y k = Some r
           \<and> (\<forall>m' og. r = Inr (m', og) \<longrightarrow> zeros (grains m') < zeros (grains m))"
proof (cases "sample m (x, y)")
  case (Inl e)
  then show ?thesis by (simp add: floodFill_def)
next
  case (Inr ms)
  from np_set_of_get[OF assms(1)] obtain g' where g': "np_set (grains m) y x k = Inr g'"
    by blast
  from zeros_np_set[OF assms(1) g'] assms(2) have z: "zeros g' < zeros (grains m)" by simp
  from fill_loop_returns[OF assms(2), of "m\<lparr>grains := g'\<rparr>" "addPoint Grain (x, y) ms" "[(x, y)]"]
  obtain r where r: "fill_loop k (m\<lparr>grains := g'\<rparr>) (addPoint Grain (x, y) ms) [(x, y)] = Some r"
    "\<forall>m' og. r = Inr (m', og) \<longrightarrow> zeros (grains m') \<le> zeros g'" by auto
  with z Inr g' show ?thesis by (auto simp: floodFill_def)
qed

text \<open>
  One turn of the loop of \<open>findGrains\<close> returns, and when it does not raise, the map
  has fewer unknown pixels than before.
\<close>

lemma findGrains_body_returns:
  assumes "fst (np_where_eq (grains m) 0) \<noteq> []" "k \<noteq> 0"
  shows "\<exists>r. findGrains_body n m k (np_where_eq (grains m) 0) = Some r
           \<and> (\<forall>m' k' up'. r = Inr (m', k', up') \<longrightarrow>
                 zeros (grains m') < zeros (grains m) \<and> up' = np_where_eq (grains m') 0
               \<and> (k' = k \<or> k' = k + 1))"
proof -
  let ?up = "np_where_eq (grains m) 0"
  from np_where_eq_first[OF assms(1)] obtain x y where xy: "first (snd ?up) = Inr x"
    "first (fst ?up) = Inr y" "np_get (grains m) y x = Inr 0" by blast
  then have sf: "seed_fill m k ?up = floodFill m x y k" by (simp add: seed_fill_def)
  from floodFill_returns[OF xy(3) assms(2)] obtain r where r: "floodFill m x y k = Some r"
    "\<forall>m' og. r = Inr (m', og) \<longrightarrow> zeros (grains m') < zeros (grains m)" by blast
  show ?thesis
  proof (cases r)
    case (Inl e)
    with sf r show ?thesis by (simp add: findGrains_body_def)
  next
    case (Inr res)
    obtain m1 og where res: "res = (m1, og)" by (cases res)
    with r Inr have z: "zeros (grains m1) < zeros (grains m)" by simp
    show ?thesis
    proof (cases og)
      case None
      with sf r Inr res show ?thesis by (simp add: findGrains_body_def)
    next
      case (Some cg)
      show ?thesis
      proof (cases "len cg < n")
        case True
        show ?thesis
        proof (cases "purge (grains m1) (coordList cg)")
          case (Inl e)
          with sf r Inr res Some True show ?thesis by (simp add: findGrains_body_def)
        next
          case pr: (Inr g')
          from purge_zeros[OF pr] z have "zeros g' < zeros (grains m)" by simp
          with sf r Inr res Some True pr show ?thesis by (simp add: findGrains_body_def)
        qed
      next
        case False
        with sf r Inr res Some z show ?thesis by (simp add: findGrains_body_def)
      qed
    qed
  qed
qed

lemma findGrains_loop_returns:
  assumes "0 < k"
  shows "\<exists>r. findGrains_loop n m k (np_where_eq (grains m) 0) = Some r"
  using assms
proof (induction "zeros (grains m)" arbitrary: m k rule: less_induct)
  case less
  let ?up = "np_where_eq (grains m) 0"
  show ?case
  proof (cases "fst ?up = []")
    case True
    then show ?thesis by (subst findGrains_loop.simps) simp
  next
    case False
    from less.prems have "k \<noteq> 0" by simp
    from findGrains_body_returns[OF False this, of n] obtain r where
      r: "findGrains_body n m k ?up = Some r"
      "\<forall>m' k' up'. r = Inr (m', k', up') \<longrightarrow>
                 zeros (grains m') < zeros (grains m) \<and> up' = np_where_eq (grains m') 0
               \<and> (k' = k \<or> k' = k + 1)" by blast
    show ?thesis
    proof (cases r)
      case (Inl e)
      with r(1) False show ?thesis by (subst findGrains_loop.simps) simp
    next
      case (Inr res)
      obtain m' k' up' where res: "res = (m', k', up')" by (cases res)
      from r(2) Inr res have "zeros (grains m') < zeros (grains m)
          \<and> up' = np_where_eq (grains m') 0 \<and> (k' = k \<or> k' = k + 1)" by blast
      with less.prems have z: "zeros (grains m') < zeros (grains m)"
        and up': "up' = np_where_eq (grains m') 0" and k': "0 < k'"
        by auto
      from less.hyps[OF z k'] obtain r' where
        "findGrains_loop n m' k' (np_where_eq (grains m') 0) = Some r'" by blast
      with r(1) Inr res up' False show ?thesis by (subst findGrains_loop.simps) simp
    qed
  qed
qed

lemma findGrains_returns: "\<exists>r. findGrains m boundaries n = Some r"
proof -
  from findGrains_loop_returns[of 1 n "findGrains_start m boundaries"]
  obtain r where "findGrains_loop n (findGrains_start m boundaries) 1
      (np_where_eq (grains (findGrains_start m boundaries)) 0) = Some r" by auto
  then show ?thesis by (cases r) (auto simp: findGrains_def Let_def)
qed

section \<open>One visit of the flood fill\<close>

lemma visit_cases [consumes 4, case_names absorb_unknown absorb_boundary skip]:
  assumes "visit k p st q = Inr st'" "rect m0 (grains (fmap st))" "0 \<le> fst q" "0 \<le> snd q"
  obtains
    (absorb_unknown) ms where "inside m0 q" "cell (grains (fmap st)) q = 0"
      "sample (fmap st) p = Inr ms"
      "st' = \<lparr>fmap = (fmap st)\<lparr>grains := grid_set (grains (fmap st)) q k\<rparr>,
              currentGrain = addPoint (currentGrain st) q ms,
              newedge = newedge st @ [q]\<rparr>"
  | (absorb_boundary) ms where "inside m0 q" "cell (grains (fmap st)) q = - 1"
      "fst q > fst p \<or> snd q > snd p" "sample (fmap st) p = Inr ms"
      "st' = \<lparr>fmap = (fmap st)\<lparr>grains := grid_set (grains (fmap st)) q k\<rparr>,
              currentGrain = addPoint (currentGrain st) q ms,
              newedge = newedge st\<rparr>"
  | (skip) "inside m0 q" "cell (grains (fmap st)) q \<noteq> 0"
      "\<not> (cell (grains (fmap st)) q = - 1 \<and> (fst q > fst p \<or> snd q > snd p))" "st' = st"
proof -
  obtain x y where p: "p = (x, y)" by (cases p)
  obtain s t where q: "q = (s, t)" by (cases q)
  let ?g = "grains (fmap st)"
  from assms(1) obtain v where v: "np_get ?g t s = Inr v"
    by (auto simp: visit_def p q split: sum.splits)
  from np_get_Inr[OF assms(2) _ _ v] assms(3,4) have ins: "inside m0 q" and vc: "v = cell ?g q"
    by (auto simp: q)
  show ?thesis
  proof (cases "v = 0")
    case True
    with assms(1) v obtain ms g' where ms: "sample (fmap st) p = Inr ms"
      and g': "np_set ?g t s k = Inr g'"
      and st': "st' = \<lparr>fmap = (fmap st)\<lparr>grains := g'\<rparr>,
                       currentGrain = addPoint (currentGrain st) q ms,
                       newedge = newedge st @ [q]\<rparr>"
      by (auto simp: visit_def p q split: sum.splits)
    from np_set_Inr[OF assms(2) _ _ g'] assms(3,4) have "g' = grid_set ?g q k"
      by (auto simp: q)
    with st' ms ins True vc show ?thesis by (intro absorb_unknown) auto
  next
    case False
    show ?thesis
    proof (cases "v = - 1 \<and> (s > x \<or> t > y)")
      case True
      with assms(1) v False obtain ms g' where ms: "sample (fmap st) p = Inr ms"
        and g': "np_set ?g t s k = Inr g'"
        and st': "st' = \<lparr>fmap = (fmap st)\<lparr>grains := g'\<rparr>,
                         currentGrain = addPoint (currentGrain st) q ms,
                         newedge = newedge st\<rparr>"
        by (auto simp: visit_def p q split: sum.splits)
      from np_set_Inr[OF assms(2) _ _ g'] assms(3,4) have "g' = grid_set ?g q k"
        by (auto simp: q)
      with st' ms ins True vc show ?thesis by (intro absorb_boundary) (auto simp: p q)
    next
      case F2: False
      with assms(1) v False have "st' = st"
        by (auto simp: visit_def p q split: sum.splits)
      with ins False F2 vc show ?thesis by (intro skip) (auto simp: p q)
    qed
  qed
qed

lemma adjacent_forward:
  "adjacent p q \<Longrightarrow> fst q > fst p \<or> snd q > snd p \<Longrightarrow> forward p q"
  by (auto simp: adjacent_def forward_def)

lemma forward_greater: "forward p q \<Longrightarrow> fst q > fst p \<or> snd q > snd p"
  by (auto simp: forward_def)

lemma same_frame_refl [simp]: "same_frame m m"
  by (simp add: same_frame_def)

lemma same_frame_update [simp]: "same_frame (m\<lparr>grains := g\<rparr>) m0 = same_frame m m0"
  by (simp add: same_frame_def)

lemma same_frame_update2 [simp]: "same_frame m (m0\<lparr>grains := g\<rparr>) = same_frame m m0"
  by (simp add: same_frame_def)

lemma same_frame_eq: "same_frame m m0 \<Longrightarrow> m0\<lparr>grains := grains m\<rparr> = m"
  by (cases m, cases m0) (simp add: same_frame_def)

lemma same_frame_fields:
  assumes "same_frame m m0"
  shows "xDim m = xDim m0" "yDim m = yDim m0" "grainList m = grainList m0"
    "moves_of m p = moves_of m0 p" "sample m p = sample m0 p"
    "inside m p = inside m0 p" "rect m g = rect m0 g"
proof -
  from same_frame_eq[OF assms] have "m = m0\<lparr>grains := grains m\<rparr>" by simp
  then obtain h where m: "m = m0\<lparr>grains := h\<rparr>" ..
  show "xDim m = xDim m0" "yDim m = yDim m0" "grainList m = grainList m0"
    "moves_of m p = moves_of m0 p" "sample m p = sample m0 p"
    "inside m p = inside m0 p" "rect m g = rect m0 g"
    by (simp_all add: m)
qed

lemma fill_invD:
  assumes "fill_inv m0 k p0 L W m gr"
  shows "same_frame m m0" "rect m0 (grains m)"
    "\<And>p. inside m0 p \<Longrightarrow>
       cell (grains m) p = (if p \<in> set (coordList gr) then k else cell (grains m0) p)"
    "\<And>p. p \<in> set (coordList gr) \<Longrightarrow>
       inside m0 p \<and> (cell (grains m0) p = 0 \<or> cell (grains m0) p = - 1)"
    "distinct (coordList gr)"
    "length (maxShearList gr) = length (coordList gr)"
    "p0 \<in> set (coordList gr)"
    "distinct L"
    "\<And>p. p \<in> set L \<Longrightarrow> p \<in> set (coordList gr) \<and> cell (grains m0) p = 0"
    "\<And>p. p \<in> set (coordList gr) \<Longrightarrow> cell (grains m0) p = 0 \<Longrightarrow> conn {r \<in> set (coordList gr). cell (grains m0) r = 0} p0 p"
    "\<And>b. inside m0 b \<Longrightarrow> cell (grains m0) b = - 1 \<Longrightarrow>
          (b \<in> set (coordList gr) \<longleftrightarrow>
             (\<exists>q\<in>set (coordList gr). cell (grains m0) q = 0 \<and> forward q b \<and> q \<notin> set L)
             \<or> b \<in> W)"
  using assms unfolding fill_inv_def by blast+

lemma fill_invI:
  assumes "same_frame m m0" "rect m0 (grains m)"
    "\<And>p. inside m0 p \<Longrightarrow>
       cell (grains m) p = (if p \<in> set (coordList gr) then k else cell (grains m0) p)"
    "\<And>p. p \<in> set (coordList gr) \<Longrightarrow>
       inside m0 p \<and> (cell (grains m0) p = 0 \<or> cell (grains m0) p = - 1)"
    "distinct (coordList gr)"
    "length (maxShearList gr) = length (coordList gr)"
    "p0 \<in> set (coordList gr)"
    "distinct L"
    "\<And>p. p \<in> set L \<Longrightarrow> p \<in> set (coordList gr) \<and> cell (grains m0) p = 0"
    "\<And>p. p \<in> set (coordList gr) \<Longrightarrow> cell (grains m0) p = 0 \<Longrightarrow> conn {r \<in> set (coordList gr). cell (grains m0) r = 0} p0 p"
    "\<And>b. inside m0 b \<Longrightarrow> cell (grains m0) b = - 1 \<Longrightarrow>
          (b \<in> set (coordList gr) \<longleftrightarrow>
             (\<exists>q\<in>set (coordList gr). cell (grains m0) q = 0 \<and> forward q b \<and> q \<notin> set L)
             \<or> b \<in> W)"
  shows "fill_inv m0 k p0 L W m gr"
  unfolding fill_inv_def using assms by blast

lemma conn_mono:
  assumes "S \<subseteq> S'" "conn S p0 p"
  shows "conn S' p0 p"
  using assms(2)
proof (induction rule: conn.induct)
  case conn_seed
  show ?case by (rule conn.conn_seed)
next
  case (conn_step p q)
  with assms(1) show ?case by (auto intro: conn.conn_step)
qed

text \<open>A visit keeps the invariant of the fill.\<close>

lemma visit_inv:
  assumes inv: "fill_inv m0 k p0 (p # R @ newedge st) W (fmap st) (currentGrain st)"
    and k: "k \<noteq> 0" "k \<noteq> - 1"
    and q: "q \<in> set (moves_of m0 p)"
    and v: "visit k p st q = Inr st'"
  shows "fill_inv m0 k p0 (p # R @ newedge st') (W \<union> {b. b = q \<and> forward p q})
           (fmap st') (currentGrain st')"
proof -
  let ?gz = "grains m0" and ?g = "grains (fmap st)" and ?cl = "coordList (currentGrain st)"
  let ?L = "p # R @ newedge st"
  note d = fill_invD[OF inv]
  note fm = d(1) and rc = d(2) and cells = d(3) and clin = d(4) and dcl = d(5)
    and lens = d(6) and seed = d(7) and dL = d(8) and Lin = d(9) and cn = d(10) and nb = d(11)
  from Lin[of p] have pcl: "p \<in> set ?cl" and p0c: "cell ?gz p = 0" by auto
  from clin[OF pcl] have pin: "inside m0 p" by simp
  from moves_of_props[OF pin q] have adj: "adjacent p q" and q0: "0 \<le> fst q" "0 \<le> snd q"
    by auto
  from v rc q0 show ?thesis
  proof (cases rule: visit_cases)
    case (absorb_unknown ms)
    let ?g' = "grid_set ?g q k"
    from absorb_unknown(1,2) cells[of q] k have qcl: "q \<notin> set ?cl" and q0c: "cell ?gz q = 0"
      by (auto split: if_splits)
    from qcl Lin have qL: "q \<notin> set ?L" by blast
    have st': "grains (fmap st') = ?g'" "coordList (currentGrain st') = ?cl @ [q]"
      "maxShearList (currentGrain st') = maxShearList (currentGrain st) @ [ms]"
      "newedge st' = newedge st @ [q]"
      by (simp_all add: absorb_unknown(4) addPoint_def)
    show ?thesis
    proof (rule fill_invI, goal_cases)
      case 1
      from fm show ?case by (simp add: absorb_unknown(4))
    next
      case 2
      from rc show ?case by (simp add: st' rect_grid_set)
    next
      case (3 r)
      with cells[of r] cell_grid_set[OF rc absorb_unknown(1), of r k] qcl
      show ?case by (auto simp: st')
    next
      case (4 r)
      with clin[of r] absorb_unknown(1) q0c show ?case by (auto simp: st')
    next
      case 5
      from dcl qcl show ?case by (simp add: st')
    next
      case 6
      from lens show ?case by (simp add: st')
    next
      case 7
      from seed show ?case by (simp add: st')
    next
      case 8
      from dL qL show ?case by (auto simp: st')
    next
      case (9 r)
      with Lin[of r] q0c show ?case by (auto simp: st')
    next
      case (10 r)
      let ?S' = "{r \<in> set (coordList (currentGrain st')). cell ?gz r = 0}"
      have sub: "{r \<in> set ?cl. cell ?gz r = 0} \<subseteq> ?S'" by (auto simp: st')
      show ?case
      proof (cases "r = q")
        case True
        from conn_mono[OF sub cn[OF pcl p0c]] adj have "conn ?S' p0 q"
          by (rule conn_step) (simp add: st' q0c)
        with True show ?thesis by simp
      next
        case False
        with 10 cn[of r] have "conn {r \<in> set ?cl. cell ?gz r = 0} p0 r" by (auto simp: st')
        from conn_mono[OF sub this] show ?thesis .
      qed
    next
      case (11 b)
      with q0c have bq: "b \<noteq> q" by auto
      with nb[OF 11] qcl show ?case by (auto simp: st')
    qed
  next
    case (absorb_boundary ms)
    let ?g' = "grid_set ?g q k"
    from absorb_boundary(1,2) cells[of q] k have qcl: "q \<notin> set ?cl" and q1c: "cell ?gz q = - 1"
      by (auto split: if_splits)
    from adjacent_forward[OF adj absorb_boundary(3)] have fw: "forward p q" .
    have st': "grains (fmap st') = ?g'" "coordList (currentGrain st') = ?cl @ [q]"
      "maxShearList (currentGrain st') = maxShearList (currentGrain st) @ [ms]"
      "newedge st' = newedge st"
      by (simp_all add: absorb_boundary(5) addPoint_def)
    show ?thesis
    proof (rule fill_invI, goal_cases)
      case 1
      from fm show ?case by (simp add: absorb_boundary(5))
    next
      case 2
      from rc show ?case by (simp add: st' rect_grid_set)
    next
      case (3 r)
      with cells[of r] cell_grid_set[OF rc absorb_boundary(1), of r k] qcl
      show ?case by (auto simp: st')
    next
      case (4 r)
      with clin[of r] absorb_boundary(1) q1c show ?case by (auto simp: st')
    next
      case 5
      from dcl qcl show ?case by (simp add: st')
    next
      case 6
      from lens show ?case by (simp add: st')
    next
      case 7
      from seed show ?case by (simp add: st')
    next
      case 8
      from dL show ?case by (simp add: st')
    next
      case (9 r)
      with Lin[of r] show ?case by (auto simp: st')
    next
      case (10 r)
      have sub: "{r \<in> set ?cl. cell ?gz r = 0}
                   \<subseteq> {r \<in> set (coordList (currentGrain st')). cell ?gz r = 0}"
        by (auto simp: st')
      from 10 cn[of r] q1c have "conn {r \<in> set ?cl. cell ?gz r = 0} p0 r" by (auto simp: st')
      from conn_mono[OF sub this] show ?case .
    next
      case (11 b)
      show ?case
      proof (cases "b = q")
        case True
        with fw show ?thesis by (simp add: st')
      next
        case False
        with nb[OF 11] q1c show ?thesis by (auto simp: st')
      qed
    qed
  next
    case skip
    show ?thesis
      unfolding skip(4)
    proof (rule fill_invI, goal_cases)
      case (11 b)
      show ?case
      proof (cases "b = q \<and> forward p q")
        case True
        with skip(3) forward_greater[of p q] have "cell ?g q \<noteq> - 1" by auto
        with cells[OF skip(1)] 11 True have "q \<in> set ?cl" by (auto split: if_splits)
        with True show ?thesis by simp
      next
        case False
        with nb[OF 11] show ?thesis by auto
      qed
    qed (use d in auto)
  qed
qed

lemma visit_succeeds:
  assumes inv: "fill_inv m0 k p0 (p # R @ newedge st) W (fmap st) (currentGrain st)"
    and good: "good_map m0"
    and q: "q \<in> set (moves_of m0 p)"
  shows "\<exists>st'. visit k p st q = Inr st'"
proof -
  note d = fill_invD[OF inv]
  from d(9)[of p] d(4)[of p] have pin: "inside m0 p" by simp
  from good have dims: "2 \<le> xDim m0" "2 \<le> yDim m0" and fo: "field_ok m0"
    by (simp_all add: good_map_def)
  from moves_of_inside[OF pin dims q] have qin: "inside m0 q" .
  obtain x y where p: "p = (x, y)" by (cases p)
  obtain s t where qq: "q = (s, t)" by (cases q)
  from fo pin obtain ms where "sample m0 p = Inr ms" unfolding field_ok_def by blast
  with same_frame_fields(5)[OF d(1)] have ms: "sample (fmap st) (x, y) = Inr ms" by (simp add: p)
  from np_get_inside[OF d(2) qin[unfolded qq]]
  have g: "np_get (grains (fmap st)) t s = Inr (cell (grains (fmap st)) (s, t))" .
  from np_set_inside[OF d(2) qin[unfolded qq]]
  have s: "np_set (grains (fmap st)) t s k = Inr (grid_set (grains (fmap st)) (s, t) k)" .
  show ?thesis by (simp add: visit_def p qq g s ms)
qed

lemma fill_inv_finish:
  assumes inv: "fill_inv m0 k p0 (p # L) {b \<in> set (moves_of m0 p). forward p b} m gr"
  shows "fill_inv m0 k p0 L {} m gr"
proof -
  note d = fill_invD[OF inv]
  from d(9)[of p] have pcl: "p \<in> set (coordList gr)" and pz: "cell (grains m0) p = 0" by auto
  from d(4)[OF pcl] have pin: "inside m0 p" by simp
  from d(8) have pL: "p \<notin> set L" and dL: "distinct L" by auto
  show ?thesis
  proof (rule fill_invI, goal_cases)
    case (11 b)
    show ?case
    proof
      assume "b \<in> set (coordList gr)"
      with d(11)[OF 11] pcl pz pL show "(\<exists>q\<in>set (coordList gr). cell (grains m0) q = 0
          \<and> forward q b \<and> q \<notin> set L) \<or> b \<in> {}" by auto
    next
      assume "(\<exists>q\<in>set (coordList gr). cell (grains m0) q = 0
          \<and> forward q b \<and> q \<notin> set L) \<or> b \<in> {}"
      then obtain q where q: "q \<in> set (coordList gr)" "cell (grains m0) q = 0" "forward q b"
        "q \<notin> set L" by auto
      show "b \<in> set (coordList gr)"
      proof (cases "q = p")
        case True
        with q(3) moves_of_forward[OF pin 11(1)] have "b \<in> set (moves_of m0 p)" "forward p b"
          by auto
        with d(11)[OF 11] show ?thesis by simp
      next
        case False
        with q d(11)[OF 11] show ?thesis by auto
      qed
    qed
  qed (use d dL in auto)
qed

text \<open>
  Handling one frontier pixel keeps the invariant and takes the pixel off the frontier;
  on a good map it does not raise.
\<close>

lemma visit_moves_inv:
  assumes inv: "fill_inv m0 k p0 (p # R @ newedge st) {} (fmap st) (currentGrain st)"
    and k: "k \<noteq> 0" "k \<noteq> - 1"
  shows "(\<forall>st'. visit_moves k st p = Inr st' \<longrightarrow>
            fill_inv m0 k p0 (R @ newedge st') {} (fmap st') (currentGrain st'))
       \<and> (good_map m0 \<longrightarrow> (\<exists>st'. visit_moves k st p = Inr st'))"
proof -
  define I where "I pre rest s \<longleftrightarrow>
      fill_inv m0 k p0 (p # R @ newedge s) {b \<in> set pre. forward p b} (fmap s) (currentGrain s)"
    for pre and rest :: "coord list" and s :: fill_state
  have mv: "moves_of (fmap st) p = moves_of m0 p"
    using same_frame_fields(4)[OF fill_invD(1)[OF inv]] .
  have I0: "I [] (moves_of m0 p) st" using inv by (simp add: I_def)
  have step: "I (pre @ [x]) rest s1"
    if "moves_of m0 p = pre @ x # rest" "I pre (x # rest) s" "visit k p s x = Inr s1"
    for pre x rest s s1
  proof -
    from that(1) have x: "x \<in> set (moves_of m0 p)" by simp
    have "{b \<in> set pre. forward p b} \<union> {b. b = x \<and> forward p x}
            = {b \<in> set (pre @ [x]). forward p b}" by auto
    with visit_inv[OF that(2)[unfolded I_def] k x that(3)] show ?thesis by (simp add: I_def)
  qed
  have fin: "fill_inv m0 k p0 (R @ newedge s) {} (fmap s) (currentGrain s)"
    if "I (moves_of m0 p) [] s" for s
    using that unfolding I_def by (rule fill_inv_finish)
  have part: "fill_inv m0 k p0 (R @ newedge st') {} (fmap st') (currentGrain st')"
    if "visit_moves k st p = Inr st'" for st'
  proof -
    from that have f: "foldE (visit k p) (moves_of m0 p) st = Inr st'"
      by (simp add: visit_moves_def mv)
    have "I (moves_of m0 p) [] st'"
      by (rule foldE_rule[OF f, where I = I]) (use I0 step in auto)
    then show ?thesis by (rule fin)
  qed
  have tot: "\<exists>st'. visit_moves k st p = Inr st'" if good: "good_map m0"
  proof -
    have "\<exists>s'. foldE (visit k p) (moves_of m0 p) st = Inr s' \<and> I (moves_of m0 p) [] s'"
    proof (rule foldE_total[where I = I])
      show "I [] (moves_of m0 p) st" by (rule I0)
    next
      fix pre x rest s
      assume a: "moves_of m0 p = pre @ x # rest" "I pre (x # rest) s"
      then have x: "x \<in> set (moves_of m0 p)" by simp
      from visit_succeeds[OF a(2)[unfolded I_def] good x]
      obtain s1 where "visit k p s x = Inr s1" by blast
      with step[OF a this] show "\<exists>s1. visit k p s x = Inr s1 \<and> I (pre @ [x]) rest s1" by blast
    qed
    then show ?thesis by (auto simp: visit_moves_def mv)
  qed
  from part tot show ?thesis by blast
qed

text \<open>One turn over the frontier.\<close>

lemma pass_inv:
  assumes inv: "fill_inv m0 k p0 edge {} m g"
    and k: "k \<noteq> 0" "k \<noteq> - 1"
  shows "(\<forall>st'. pass k m g edge = Inr st' \<longrightarrow>
            fill_inv m0 k p0 (newedge st') {} (fmap st') (currentGrain st'))
       \<and> (good_map m0 \<longrightarrow> (\<exists>st'. pass k m g edge = Inr st'))"
proof -
  define I where "I pre rest s \<longleftrightarrow>
      fill_inv m0 k p0 (rest @ newedge s) {} (fmap s) (currentGrain s)"
    for pre :: "coord list" and rest and s :: fill_state
  let ?s0 = "\<lparr>fmap = m, currentGrain = g, newedge = []\<rparr>"
  have I0: "I [] edge ?s0" using inv by (simp add: I_def)
  have step: "I (pre @ [x]) rest s1"
    if "I pre (x # rest) s" "visit_moves k s x = Inr s1" for pre x rest s s1
    using visit_moves_inv[OF _ k, of m0 p0 x rest s] that by (simp add: I_def)
  have part: "fill_inv m0 k p0 (newedge st') {} (fmap st') (currentGrain st')"
    if "pass k m g edge = Inr st'" for st'
  proof -
    from that have f: "foldE (visit_moves k) edge ?s0 = Inr st'" by (simp add: pass_def)
    have "I edge [] st'"
      by (rule foldE_rule[OF f, where I = I]) (use I0 step in auto)
    then show ?thesis by (simp add: I_def)
  qed
  have tot: "\<exists>st'. pass k m g edge = Inr st'" if good: "good_map m0"
  proof -
    have "\<exists>s'. foldE (visit_moves k) edge ?s0 = Inr s' \<and> I edge [] s'"
    proof (rule foldE_total[where I = I])
      show "I [] edge ?s0" by (rule I0)
    next
      fix pre x rest s
      assume a: "edge = pre @ x # rest" "I pre (x # rest) s"
      from visit_moves_inv[OF _ k, of m0 p0 x rest s] a(2) good
      obtain s1 where "visit_moves k s x = Inr s1" by (auto simp: I_def)
      with step[OF a(2) this] show "\<exists>s1. visit_moves k s x = Inr s1 \<and> I (pre @ [x]) rest s1"
        by blast
    qed
    then show ?thesis by (auto simp: pass_def)
  qed
  from part tot show ?thesis by blast
qed

text \<open>
  The loop of the fill: when it returns without raising it returns a grain, for which
  the invariant holds with an empty frontier; on a good map it does not raise.
\<close>

lemma fill_loop_inv:
  assumes k: "k \<noteq> 0" "k \<noteq> - 1"
  shows "fill_inv m0 k p0 edge {} m g \<Longrightarrow> edge \<noteq> [] \<Longrightarrow>
     (\<forall>m' og. fill_loop k m g edge = Some (Inr (m', og)) \<longrightarrow>
         (\<exists>gr. og = Some gr \<and> fill_inv m0 k p0 [] {} m' gr))
   \<and> (good_map m0 \<longrightarrow> (\<exists>m' gr. fill_loop k m g edge = Some (Inr (m', Some gr))))"
proof (induction "zeros (grains m)" arbitrary: m g edge rule: less_induct)
  case less
  note pi = pass_inv[OF less.prems(1) k]
  show ?case
  proof (cases "pass k m g edge")
    case (Inl e)
    with less.prems(2) have "fill_loop k m g edge = Some (Inl e)"
      by (subst fill_loop.simps) simp
    moreover from pi Inl have "\<not> good_map m0" by auto
    ultimately show ?thesis by simp
  next
    case (Inr st)
    with pi have inv': "fill_inv m0 k p0 (newedge st) {} (fmap st) (currentGrain st)" by blast
    show ?thesis
    proof (cases "newedge st = []")
      case True
      with less.prems(2) Inr
      have "fill_loop k m g edge = Some (Inr (fmap st, Some (currentGrain st)))"
        by (subst fill_loop.simps) simp
      with inv' True show ?thesis by simp
    next
      case False
      from pass_zeros[OF Inr k(1)] False have lt: "zeros (grains (fmap st)) < zeros (grains m)"
        by (cases "newedge st") auto
      have "fill_loop k m g edge = fill_loop k (fmap st) (currentGrain st) (newedge st)"
        using less.prems(2) Inr False by (subst fill_loop.simps) simp
      with less.hyps[OF lt inv' False] show ?thesis by simp
    qed
  qed
qed

lemma fill_inv_start:
  assumes rc: "rect m (grains m)" and pin: "inside m p" and pz: "cell (grains m) p = 0"
  shows "fill_inv m k p [p] {} (m\<lparr>grains := grid_set (grains m) p k\<rparr>) (addPoint Grain p ms)"
proof (rule fill_invI, goal_cases)
  case 2
  from rc show ?case by (simp add: rect_grid_set)
next
  case (3 r)
  with cell_grid_set[OF rc pin, of r k] show ?case by (simp add: addPoint_def Grain_def)
next
  case (11 b)
  with pz show ?case by (auto simp: addPoint_def Grain_def)
qed (use pin pz in \<open>auto simp: addPoint_def Grain_def intro: conn_seed\<close>)

text \<open>The flood fill from an unknown pixel inside the grid.\<close>

lemma floodFill_inv:
  assumes rc: "rect m (grains m)" and pin: "inside m (x, y)"
    and pz: "cell (grains m) (x, y) = 0" and k: "k \<noteq> 0" "k \<noteq> - 1"
  shows "(\<forall>m' og. floodFill m x y k = Some (Inr (m', og)) \<longrightarrow>
            (\<exists>gr. og = Some gr \<and> fill_inv m k (x, y) [] {} m' gr))
       \<and> (good_map m \<longrightarrow> (\<exists>m' gr. floodFill m x y k = Some (Inr (m', Some gr))))"
proof (cases "sample m (x, y)")
  case (Inl e)
  then have "floodFill m x y k = Some (Inl e)" by (simp add: floodFill_def)
  moreover have "\<not> good_map m"
  proof
    assume "good_map m"
    with pin obtain v where "sample m (x, y) = Inr v"
      unfolding good_map_def field_ok_def by blast
    with Inl show False by simp
  qed
  ultimately show ?thesis by simp
next
  case (Inr ms)
  let ?m1 = "m\<lparr>grains := grid_set (grains m) (x, y) k\<rparr>"
  from np_set_inside[OF rc pin]
  have "np_set (grains m) y x k = Inr (grid_set (grains m) (x, y) k)" .
  with Inr have ff: "floodFill m x y k = fill_loop k ?m1 (addPoint Grain (x, y) ms) [(x, y)]"
    by (simp add: floodFill_def)
  from fill_loop_inv[OF k fill_inv_start[OF rc pin pz, of k ms]]
  show ?thesis unfolding ff by simp
qed

section \<open>Purging an undersized grain\<close>

lemma purge_spec:
  assumes "rect m g" "\<forall>p\<in>set cs. inside m p"
  shows "\<exists>g'. purge g cs = Inr g' \<and> rect m g'
           \<and> (\<forall>p. inside m p \<longrightarrow> cell g' p = (if p \<in> set cs then - 2 else cell g p))"
  using assms
proof (induction cs arbitrary: g)
  case Nil
  then show ?case by (simp add: purge_def)
next
  case (Cons c cs)
  let ?g1 = "grid_set g c (- 2)"
  from Cons.prems(2) have cin: "inside m (fst c, snd c)" by simp
  from np_set_inside[OF Cons.prems(1) cin]
  have s: "np_set g (snd c) (fst c) (- 2) = Inr ?g1" by simp
  from Cons.IH[of ?g1] rect_grid_set[OF Cons.prems(1)] Cons.prems(2)
  obtain g' where g': "purge ?g1 cs = Inr g'" "rect m g'"
    "\<forall>p. inside m p \<longrightarrow> cell g' p = (if p \<in> set cs then - 2 else cell ?g1 p)" by auto
  have "purge g (c # cs) = Inr g'" using s g'(1) by (simp add: purge_def)
  moreover have "cell g' p = (if p \<in> set (c # cs) then - 2 else cell g p)" if "inside m p" for p
  proof -
    from cin have cin': "inside m c" by simp
    from g'(3) that have "cell g' p = (if p \<in> set cs then - 2 else cell ?g1 p)" by blast
    with cell_grid_set[OF Cons.prems(1) cin' that, of "- 2"] show ?thesis by auto
  qed
  ultimately show ?case using g'(2) by blast
qed

section \<open>The start of the segmentation\<close>

lemma np_where_eq_seed:
  assumes "fst (np_where_eq g v) \<noteq> []"
  shows "\<exists>x y. first (snd (np_where_eq g v)) = Inr x \<and> first (fst (np_where_eq g v)) = Inr y
           \<and> np_get g y x = Inr v \<and> 0 \<le> x \<and> 0 \<le> y"
proof -
  define hits where "hits = concat (map (\<lambda>i. map (\<lambda>j. (int i, int j))
                                (filter (\<lambda>j. g ! i ! j = v) [0..<length (g ! i)]))
                         [0..<length g])"
  have w: "np_where_eq g v = (map fst hits, map snd hits)"
    by (simp add: np_where_eq_def hits_def Let_def)
  with assms obtain h hs where h: "hits = h # hs" by (cases hits) auto
  obtain r c where rc: "h = (r, c)" by (cases h)
  have "(r, c) \<in> set (zip (fst (np_where_eq g v)) (snd (np_where_eq g v)))"
    by (simp add: w h rc)
  from np_where_eq_hit[OF this] obtain i j where ij: "r = int i" "c = int j" "i < length g"
    "j < length (g ! i)" "g ! i ! j = v" by blast
  then have "np_get g r c = Inr v" by (simp add: np_get_def np_index_def)
  with ij show ?thesis by (simp add: w h rc first_def)
qed

lemma np_where_eq_none:
  assumes "fst (np_where_eq g v) = []" "rect m g" "inside m p"
  shows "cell g p \<noteq> v"
proof -
  from assms(2,3) have a: "nat (snd p) < length g" by (auto simp: rect_def inside_def)
  with assms(2) have "int (length (g ! nat (snd p))) = xDim m" by (rule rect_row)
  with assms(3) have "nat (fst p) < length (g ! nat (snd p))" by (auto simp: inside_def)
  from np_where_eq_empty[OF assms(1) a this] show ?thesis by (simp add: cell_def)
qed

lemma rect_label_grid: "rect m boundaries \<Longrightarrow> rect m (label_grid boundaries)"
  by (auto simp: rect_def label_grid_def)

lemma cell_label_grid:
  assumes "rect m boundaries" "inside m p"
  shows "cell (label_grid boundaries) p = (if cell boundaries p then - 1 else 0)"
proof -
  from assms have a: "nat (snd p) < length boundaries" by (auto simp: rect_def inside_def)
  with assms(1) have "int (length (boundaries ! nat (snd p))) = xDim m" by (rule rect_row)
  with assms(2) have "nat (fst p) < length (boundaries ! nat (snd p))" by (auto simp: inside_def)
  with a show ?thesis by (simp add: cell_def label_grid_def)
qed

lemma start_ok_findGrains_start:
  assumes "rect m boundaries"
  shows "start_ok (findGrains_start m boundaries)"
proof -
  let ?mb = "findGrains_start m boundaries"
  have r: "rect ?mb boundaries" using assms by (simp add: rect_def findGrains_start_def)
  have i: "inside ?mb p = inside m p" for p by (simp add: inside_def findGrains_start_def)
  have "cell (grains ?mb) p = 0 \<or> cell (grains ?mb) p = - 1" if "inside ?mb p" for p
  proof -
    from that have "inside m p" by (simp add: i)
    from cell_label_grid[OF assms this] show ?thesis by (auto simp: findGrains_start_def)
  qed
  moreover have "rect ?mb (grains ?mb)"
    using rect_label_grid[OF r] by (simp add: findGrains_start_def)
  ultimately show ?thesis by (simp add: start_ok_def findGrains_start_def)
qed

lemma seg_invD:
  assumes "seg_inv mb n m gi"
  shows "same_frame (m\<lparr>grainList := []\<rparr>) mb" "rect mb (grains m)"
    "gi = int (length (grainList m)) + 1"
    "\<And>p. inside mb p \<Longrightarrow> - 2 \<le> cell (grains m) p \<and> cell (grains m) p < gi"
    "\<And>gr. gr \<in> set (grainList m) \<Longrightarrow>
          coordList gr \<noteq> [] \<and> distinct (coordList gr)
        \<and> length (maxShearList gr) = length (coordList gr) \<and> n \<le> len gr"
    "\<And>i p. i < length (grainList m) \<Longrightarrow>
          p \<in> set (coordList (grainList m ! i))
            \<longleftrightarrow> inside mb p \<and> cell (grains m) p = int i + 1"
    "\<And>p. inside mb p \<Longrightarrow> cell (grains mb) p = - 1 \<Longrightarrow> cell (grains m) p \<noteq> 0"
    "\<And>p. inside mb p \<Longrightarrow> cell (grains mb) p = 0 \<Longrightarrow> cell (grains m) p \<noteq> - 1"
    "\<And>b. inside mb b \<Longrightarrow> cell (grains mb) b = - 1 \<Longrightarrow>
          (cell (grains m) b \<noteq> - 1 \<longleftrightarrow>
             (\<exists>q. inside mb q \<and> cell (grains mb) q = 0 \<and> forward q b
                  \<and> cell (grains m) q \<noteq> 0))"
    "\<And>b. inside mb b \<Longrightarrow> cell (grains mb) b = - 1 \<Longrightarrow> cell (grains m) b \<noteq> - 1 \<Longrightarrow>
          (\<exists>q. inside mb q \<and> cell (grains mb) q = 0 \<and> forward q b
               \<and> cell (grains m) q = cell (grains m) b)"
  using assms unfolding seg_inv_def by blast+

lemma seg_invI:
  assumes "same_frame (m\<lparr>grainList := []\<rparr>) mb" "rect mb (grains m)"
    "gi = int (length (grainList m)) + 1"
    "\<And>p. inside mb p \<Longrightarrow> - 2 \<le> cell (grains m) p \<and> cell (grains m) p < gi"
    "\<And>gr. gr \<in> set (grainList m) \<Longrightarrow>
          coordList gr \<noteq> [] \<and> distinct (coordList gr)
        \<and> length (maxShearList gr) = length (coordList gr) \<and> n \<le> len gr"
    "\<And>i p. i < length (grainList m) \<Longrightarrow>
          p \<in> set (coordList (grainList m ! i))
            \<longleftrightarrow> inside mb p \<and> cell (grains m) p = int i + 1"
    "\<And>p. inside mb p \<Longrightarrow> cell (grains mb) p = - 1 \<Longrightarrow> cell (grains m) p \<noteq> 0"
    "\<And>p. inside mb p \<Longrightarrow> cell (grains mb) p = 0 \<Longrightarrow> cell (grains m) p \<noteq> - 1"
    "\<And>b. inside mb b \<Longrightarrow> cell (grains mb) b = - 1 \<Longrightarrow>
          (cell (grains m) b \<noteq> - 1 \<longleftrightarrow>
             (\<exists>q. inside mb q \<and> cell (grains mb) q = 0 \<and> forward q b
                  \<and> cell (grains m) q \<noteq> 0))"
    "\<And>b. inside mb b \<Longrightarrow> cell (grains mb) b = - 1 \<Longrightarrow> cell (grains m) b \<noteq> - 1 \<Longrightarrow>
          (\<exists>q. inside mb q \<and> cell (grains mb) q = 0 \<and> forward q b
               \<and> cell (grains m) q = cell (grains m) b)"
  shows "seg_inv mb n m gi"
  unfolding seg_inv_def using assms by blast

lemma seg_inv_start:
  assumes "start_ok mb"
  shows "seg_inv mb n mb 1"
proof -
  from assms have gl: "grainList mb = []" and rc: "rect mb (grains mb)"
    and c: "\<And>p. inside mb p \<Longrightarrow> cell (grains mb) p = 0 \<or> cell (grains mb) p = - 1"
    by (auto simp: start_ok_def)
  have sf: "same_frame (mb\<lparr>grainList := []\<rparr>) mb"
    using gl by (cases mb) (simp add: same_frame_def)
  show ?thesis
  proof (rule seg_invI, goal_cases)
    case (4 p)
    with c[of p] show ?case by auto
  next
    case (9 b)
    with c show ?case by auto
  next
    case (10 b)
    then show ?case by simp
  qed (use sf rc gl c in \<open>auto simp: gl\<close>)
qed

section \<open>One turn of the segmentation\<close>

lemma frame_fields:
  assumes "same_frame (m\<lparr>grainList := a\<rparr>) mb"
  shows "inside m p = inside mb p" "rect m g = rect mb g" "good_map m = good_map mb"
proof -
  from assms have e: "xDim m = xDim mb" "yDim m = yDim mb" "max_shear m = max_shear mb"
    "cropDists m = cropDists mb"
    by (cases m, cases mb, simp add: same_frame_def)+
  show i: "inside m p = inside mb p" for p by (simp add: inside_def e)
  show "rect m g = rect mb g" by (simp add: rect_def e)
  have "sample m p = sample mb p" for p by (simp add: sample_def e)
  then show "good_map m = good_map mb" by (simp add: good_map_def field_ok_def e i)
qed

lemma frame_trans:
  assumes "same_frame m1 m" "same_frame (m\<lparr>grainList := a\<rparr>) mb"
  shows "same_frame (m1\<lparr>grainList := a\<rparr>) mb"
  using assms by (cases m1, cases m, cases mb) (simp add: same_frame_def)

text \<open>
  The map after a turn: the pixels of the filled grain hold \<open>v\<close>, which is -2 when the
  grain is dropped and the grain counter when it is kept, and the other pixels are as
  before.
\<close>

lemma seg_inv_relabel:
  assumes inv: "seg_inv mb n m gi" and ok: "start_ok mb"
    and fi: "fill_inv m gi p0 [] {} m1 gr"
    and fr: "same_frame (m'\<lparr>grainList := []\<rparr>) mb" and rc: "rect mb (grains m')"
    and cells: "\<And>p. inside mb p \<Longrightarrow>
        cell (grains m') p = (if p \<in> set (coordList gr) then v else cell (grains m) p)"
    and v: "v = - 2 \<and> grainList m' = grainList m \<and> gi' = gi
          \<or> v = gi \<and> grainList m' = grainList m @ [gr] \<and> gi' = gi + 1 \<and> n \<le> len gr"
  shows "seg_inv mb n m' gi'"
proof -
  let ?cl = "coordList gr" and ?gl = "grainList m"
  note d = seg_invD[OF inv]
  note f = fill_invD[OF fi]
  note io = frame_fields(1)[OF d(1)]
  from ok have c: "\<And>p. inside mb p \<Longrightarrow> cell (grains mb) p = 0 \<or> cell (grains mb) p = - 1"
    by (auto simp: start_ok_def)
  from d(3) have gi: "1 \<le> gi" by simp
  with v have v0: "v \<noteq> 0" "v \<noteq> - 1" "- 2 \<le> v" "v < gi'" "gi \<le> gi'" by auto
  have old: "cell (grains m) p = 0 \<or> cell (grains m) p = - 1" "inside mb p"
    if "p \<in> set ?cl" for p
    using f(4)[OF that] by (auto simp: io)
  have bnd: "cell (grains m) b = - 1 \<Longrightarrow> cell (grains mb) b = - 1" if "inside mb b" for b
    using c[OF that] d(8)[OF that] by auto
  have unk: "cell (grains m) q = 0 \<Longrightarrow> cell (grains mb) q = 0" if "inside mb q" for q
    using c[OF that] d(7)[OF that] by auto
  show ?thesis
  proof (rule seg_invI, goal_cases)
    case 1
    show ?case by (rule fr)
  next
    case 2
    show ?case by (rule rc)
  next
    case 3
    from v d(3) show ?case by auto
  next
    case (4 p)
    from d(4)[OF 4] cells[OF 4] v0 show ?case by auto
  next
    case (5 g)
    with v d(5)[of g] f(5,6,7) show ?case by auto
  next
    case (6 i p)
    show ?case
    proof (cases "i < length ?gl")
      case True
      with v have nth: "grainList m' ! i = ?gl ! i" by (auto simp: nth_append)
      from v True d(3) have vi: "v \<noteq> int i + 1" by auto
      show ?thesis
      proof (cases "p \<in> set ?cl")
        case pc: True
        from old[OF pc] d(6)[OF True, of p] cells[OF old(2)[OF pc]] pc vi
        show ?thesis unfolding nth by auto
      next
        case pc: False
        show ?thesis
        proof (cases "inside mb p")
          case True
          with cells[OF True] pc d(6)[OF \<open>i < length ?gl\<close>, of p] show ?thesis
            unfolding nth by simp
        next
          case False
          with d(6)[OF \<open>i < length ?gl\<close>, of p] show ?thesis unfolding nth by simp
        qed
      qed
    next
      case False
      with 6 v have app: "v = gi" "grainList m' = ?gl @ [gr]" "i = length ?gl" by auto
      then have nth: "grainList m' ! i = gr" by simp
      show ?thesis
      proof (cases "p \<in> set ?cl")
        case True
        with cells[OF old(2)[OF True]] old(2)[OF True] app d(3) show ?thesis
          unfolding nth by simp
      next
        case pc: False
        show ?thesis
        proof (cases "inside mb p")
          case True
          with cells[OF True] pc d(4)[OF True] app d(3) show ?thesis
            unfolding nth by simp
        next
          case False
          with pc show ?thesis unfolding nth by simp
        qed
      qed
    qed
  next
    case (7 p)
    with d(7)[OF 7] cells[OF 7(1)] v0 show ?case by auto
  next
    case (8 p)
    with d(8)[OF 8] cells[OF 8(1)] v0 show ?case by auto
  next
    case (9 b)
    have cq: "cell (grains m') q \<noteq> 0 \<longleftrightarrow> q \<in> set ?cl \<or> cell (grains m) q \<noteq> 0"
      if "inside mb q" for q
      using cells[OF that] v0 by auto
    show ?case
    proof (cases "cell (grains m) b = - 1")
      case False
      with d(7)[OF 9] old(1)[of b] have bcl: "b \<notin> set ?cl" by auto
      with cells[OF 9(1)] False have l: "cell (grains m') b \<noteq> - 1" by simp
      from False d(9)[OF 9] obtain q where "inside mb q" "cell (grains mb) q = 0"
        "forward q b" "cell (grains m) q \<noteq> 0" by auto
      with cq[of q] l show ?thesis by blast
    next
      case True
      from 9(1) have bi: "inside m b" by (simp add: io)
      from f(11)[OF bi True]
      have fl: "b \<in> set ?cl \<longleftrightarrow> (\<exists>q\<in>set ?cl. cell (grains m) q = 0 \<and> forward q b)" by simp
      from cells[OF 9(1)] True v0 have l: "cell (grains m') b \<noteq> - 1 \<longleftrightarrow> b \<in> set ?cl" by auto
      from d(9)[OF 9] True
      have none: "\<And>q. inside mb q \<Longrightarrow> cell (grains mb) q = 0 \<Longrightarrow> forward q b
                    \<Longrightarrow> cell (grains m) q = 0" by auto
      show ?thesis
      proof
        assume "cell (grains m') b \<noteq> - 1"
        with l fl obtain q where q: "q \<in> set ?cl" "cell (grains m) q = 0" "forward q b" by auto
        from old(2)[OF q(1)] have qi: "inside mb q" .
        from unk[OF qi q(2)] cq[OF qi] q qi
        show "\<exists>q. inside mb q \<and> cell (grains mb) q = 0 \<and> forward q b
                 \<and> cell (grains m') q \<noteq> 0" by blast
      next
        assume "\<exists>q. inside mb q \<and> cell (grains mb) q = 0 \<and> forward q b
                 \<and> cell (grains m') q \<noteq> 0"
        then obtain q where q: "inside mb q" "cell (grains mb) q = 0" "forward q b"
          "cell (grains m') q \<noteq> 0" by blast
        from none[OF q(1,2,3)] cq[OF q(1)] q(4) have "q \<in> set ?cl" "cell (grains m) q = 0"
          by auto
        with q(3) fl l show "cell (grains m') b \<noteq> - 1" by auto
      qed
    qed
  next
    case (10 b)
    show ?case
    proof (cases "cell (grains m) b = - 1")
      case True
      from 10(1) have bi: "inside m b" by (simp add: io)
      from cells[OF 10(1)] True 10(3) have bcl: "b \<in> set ?cl" by (auto split: if_splits)
      with f(11)[OF bi True] obtain q where q: "q \<in> set ?cl" "cell (grains m) q = 0"
        "forward q b" by auto
      from old(2)[OF q(1)] have qi: "inside mb q" .
      from cells[OF qi] cells[OF 10(1)] q(1) bcl
      have "cell (grains m') q = cell (grains m') b" by simp
      with unk[OF qi q(2)] qi q(3) show ?thesis by blast
    next
      case False
      with d(7)[OF 10(1,2)] old(1)[of b] have bcl: "b \<notin> set ?cl" by auto
      from d(10)[OF 10(1,2) False] obtain q where q: "inside mb q" "cell (grains mb) q = 0"
        "forward q b" "cell (grains m) q = cell (grains m) b" by blast
      from q(4) False d(7)[OF 10(1,2)] old(1)[of q] have qcl: "q \<notin> set ?cl" by auto
      from cells[OF q(1)] cells[OF 10(1)] qcl bcl q(4)
      have "cell (grains m') q = cell (grains m') b" by simp
      with q show ?thesis by blast
    qed
  qed
qed

text \<open>
  One turn of the loop keeps the invariant. The turn fills one grain from an unknown
  pixel; its pixels end up with -2 when it is shorter than the threshold, and with the
  grain counter otherwise, in which case it is appended to the grain list and the
  counter advances. On a good map the turn does not raise.
\<close>

lemma findGrains_body_inv:
  assumes inv: "seg_inv mb n m gi" and ok: "start_ok mb"
    and up: "fst (np_where_eq (grains m) 0) \<noteq> []"
  shows "(\<forall>s'. findGrains_body n m gi (np_where_eq (grains m) 0) = Some (Inr s') \<longrightarrow>
           (\<exists>m' gi' m1 cg p0.
               s' = (m', gi', np_where_eq (grains m') 0)
             \<and> seg_inv mb n m' gi'
             \<and> seed_fill m gi (np_where_eq (grains m) 0) = Some (Inr (m1, Some cg))
             \<and> fill_inv m gi p0 [] {} m1 cg
             \<and> (\<forall>p. inside mb p \<longrightarrow>
                   cell (grains m') p =
                     (if p \<in> set (coordList cg) then (if len cg < n then - 2 else gi)
                      else cell (grains m) p))
             \<and> grainList m' = (if len cg < n then grainList m else grainList m @ [cg])
             \<and> gi' = (if len cg < n then gi else gi + 1)))
       \<and> (good_map mb \<longrightarrow>
            (\<exists>s'. findGrains_body n m gi (np_where_eq (grains m) 0) = Some (Inr s')))"
proof -
  let ?up = "np_where_eq (grains m) 0"
  note d = seg_invD[OF inv]
  note io = frame_fields[OF d(1)]
  from np_where_eq_seed[OF up] obtain x y where xy: "first (snd ?up) = Inr x"
    "first (fst ?up) = Inr y" "np_get (grains m) y x = Inr 0" "0 \<le> x" "0 \<le> y" by blast
  then have sf: "seed_fill m gi ?up = floodFill m x y gi" by (simp add: seed_fill_def)
  from d(2) have rcm: "rect m (grains m)" by (simp add: io)
  from np_get_Inr[OF rcm xy(4,5,3)] have pin: "inside m (x, y)" and pz: "cell (grains m) (x, y) = 0"
    by auto
  from d(3) have k: "gi \<noteq> 0" "gi \<noteq> - 1" by auto
  note ff = floodFill_inv[OF rcm pin pz k]
  have body: "findGrains_body n m gi ?up =
     (case floodFill m x y gi of
        None \<Rightarrow> None
      | Some (Inl e) \<Rightarrow> Some (Inl e)
      | Some (Inr (m1, None)) \<Rightarrow> Some (Inl TypeError)
      | Some (Inr (m1, Some cg)) \<Rightarrow>
          if len cg < n then
            (case purge (grains m1) (coordList cg) of
               Inl e \<Rightarrow> Some (Inl e)
             | Inr g' \<Rightarrow> Some (Inr (m1\<lparr>grains := g'\<rparr>, gi, np_where_eq g' 0)))
          else
            Some (Inr (m1\<lparr>grainList := grainList m1 @ [cg]\<rparr>, gi + 1,
                       np_where_eq (grains m1) 0)))"
    by (simp add: findGrains_body_def sf)
  show ?thesis
  proof (cases "\<exists>m1 cg. floodFill m x y gi = Some (Inr (m1, Some cg))")
    case False
    with ff have ng: "\<not> good_map mb" by (auto simp: io)
    have "findGrains_body n m gi ?up \<noteq> Some (Inr s')" for s'
    proof (cases "floodFill m x y gi")
      case None
      then show ?thesis by (simp add: body)
    next
      case (Some r)
      show ?thesis
      proof (cases r)
        case (Inl e)
        with Some show ?thesis by (simp add: body)
      next
        case (Inr res)
        obtain m1 og where res: "res = (m1, og)" by (cases res)
        with False Some Inr have "og = None" by (cases og) auto
        with Some Inr res show ?thesis by (simp add: body)
      qed
    qed
    with ng show ?thesis by simp
  next
    case True
    then obtain m1 cg where fl: "floodFill m x y gi = Some (Inr (m1, Some cg))" by blast
    with ff have fi: "fill_inv m gi (x, y) [] {} m1 cg" by auto
    note f = fill_invD[OF fi]
    from f(2) have rc1: "rect mb (grains m1)" by (simp add: io)
    from same_frame_fields(3)[OF f(1)] have gl1: "grainList m1 = grainList m" .
    from frame_trans[OF f(1) d(1)] have fr1: "same_frame (m1\<lparr>grainList := []\<rparr>) mb" .
    from f(4) have clin: "\<forall>p\<in>set (coordList cg). inside mb p" by (auto simp: io)
    show ?thesis
    proof (cases "len cg < n")
      case small: True
      from purge_spec[OF rc1 clin] obtain g' where g': "purge (grains m1) (coordList cg) = Inr g'"
        "rect mb g'"
        "\<forall>p. inside mb p \<longrightarrow> cell g' p = (if p \<in> set (coordList cg) then - 2 else cell (grains m1) p)"
        by blast
      let ?m' = "m1\<lparr>grains := g'\<rparr>"
      have b: "findGrains_body n m gi ?up = Some (Inr (?m', gi, np_where_eq (grains ?m') 0))"
        by (simp add: body fl small g'(1))
      have cells: "cell (grains ?m') p = (if p \<in> set (coordList cg) then - 2 else cell (grains m) p)"
        if "inside mb p" for p
      proof -
        from g'(3) that
        have "cell g' p = (if p \<in> set (coordList cg) then - 2 else cell (grains m1) p)"
          by blast
        with that f(3)[of p] show ?thesis by (auto simp: io)
      qed
      have fr: "same_frame (?m'\<lparr>grainList := []\<rparr>) mb"
        using fr1 by (simp add: same_frame_def)
      have "seg_inv mb n ?m' gi"
        by (rule seg_inv_relabel[OF inv ok fi fr _ cells]) (use g'(2) gl1 in auto)
      with b sf fl fi cells gl1 small show ?thesis by auto
    next
      case big: False
      let ?m' = "m1\<lparr>grainList := grainList m1 @ [cg]\<rparr>"
      have b: "findGrains_body n m gi ?up = Some (Inr (?m', gi + 1, np_where_eq (grains ?m') 0))"
        by (simp add: body fl big)
      have cells: "cell (grains ?m') p = (if p \<in> set (coordList cg) then gi else cell (grains m) p)"
        if "inside mb p" for p
        using that f(3)[of p] by (auto simp: io)
      have fr: "same_frame (?m'\<lparr>grainList := []\<rparr>) mb"
        using fr1 by simp
      have "seg_inv mb n ?m' (gi + 1)"
        by (rule seg_inv_relabel[OF inv ok fi fr _ cells]) (use rc1 gl1 big in auto)
      with b sf fl fi cells gl1 big show ?thesis by auto
    qed
  qed
qed

section \<open>The loop of the segmentation\<close>

lemma seg_reach_first:
  assumes "seg_reach n s1 s'" "findGrains_body n m k up = Some (Inr s1)" "fst up \<noteq> []"
  shows "seg_reach n (m, k, up) s'"
  using assms
proof (induction rule: seg_reach.induct)
  case reach_start
  from seg_reach.reach_start[of n "(m, k, up)"] reach_start.prems(2) reach_start.prems(1)
  show ?case by (rule seg_reach.reach_turn)
next
  case (reach_turn m2 k2 up2 s2)
  from reach_turn.IH[OF reach_turn.prems] reach_turn.hyps(2,3) show ?case
    by (rule seg_reach.reach_turn)
qed

text \<open>
  When the loop returns without raising, its result is a state the turns of the loop
  lead to, and no unknown point is left in it.
\<close>

lemma findGrains_loop_reach:
  assumes "0 < k" "findGrains_loop n m k (np_where_eq (grains m) 0) = Some (Inr (m', k'))"
  shows "seg_reach n (m, k, np_where_eq (grains m) 0) (m', k', np_where_eq (grains m') 0)
       \<and> fst (np_where_eq (grains m') 0) = []"
  using assms
proof (induction "zeros (grains m)" arbitrary: m k rule: less_induct)
  case less
  let ?up = "np_where_eq (grains m) 0"
  show ?case
  proof (cases "fst ?up = []")
    case True
    with less.prems(2) have "m' = m" "k' = k" by (subst (asm) findGrains_loop.simps, simp)+
    with True show ?thesis by (simp add: seg_reach.reach_start)
  next
    case False
    from less.prems have k0: "k \<noteq> 0" by simp
    from findGrains_body_returns[OF False k0, of n] obtain r where
      r: "findGrains_body n m k ?up = Some r"
      and r2: "\<forall>m1 k1 up1. r = Inr (m1, k1, up1) \<longrightarrow>
                 zeros (grains m1) < zeros (grains m) \<and> up1 = np_where_eq (grains m1) 0
               \<and> (k1 = k \<or> k1 = k + 1)" by blast
    show ?thesis
    proof (cases r)
      case (Inl e)
      with r False less.prems(2) show ?thesis by (subst (asm) findGrains_loop.simps) simp
    next
      case (Inr res)
      obtain m1 k1 up1 where res: "res = (m1, k1, up1)" by (cases res)
      from r2 Inr res have "zeros (grains m1) < zeros (grains m)
          \<and> up1 = np_where_eq (grains m1) 0 \<and> (k1 = k \<or> k1 = k + 1)" by blast
      with less.prems(1) have z: "zeros (grains m1) < zeros (grains m)"
        and up1: "up1 = np_where_eq (grains m1) 0" and k1: "0 < k1" by auto
      from r Inr res up1 False less.prems(2)
      have "findGrains_loop n m1 k1 (np_where_eq (grains m1) 0) = Some (Inr (m', k'))"
        by (subst (asm) findGrains_loop.simps) simp
      from less.hyps[OF z k1 this]
      have "seg_reach n (m1, k1, up1) (m', k', np_where_eq (grains m') 0)"
        and e: "fst (np_where_eq (grains m') 0) = []" by (simp_all add: up1)
      from seg_reach_first[OF this(1) _ False] r Inr res e show ?thesis by simp
    qed
  qed
qed

text \<open>
  Every state of the loop satisfies the invariant, and every pixel that holds -2 lies in
  a grain that an earlier turn filled and found shorter than the threshold; all pixels
  of that grain hold -2.
\<close>

lemma seg_reach_inv:
  assumes ok: "start_ok mb" and r: "seg_reach n (mb, 1, np_where_eq (grains mb) 0) s"
  shows "seg_inv mb n (fst s) (fst (snd s)) \<and> snd (snd s) = np_where_eq (grains (fst s)) 0
       \<and> (\<forall>p. inside mb p \<longrightarrow> cell (grains (fst s)) p = - 2 \<longrightarrow>
            (\<exists>m1 k1 m2 cg.
                seg_reach n (mb, 1, np_where_eq (grains mb) 0) (m1, k1, np_where_eq (grains m1) 0)
              \<and> fst (np_where_eq (grains m1) 0) \<noteq> []
              \<and> seed_fill m1 k1 (np_where_eq (grains m1) 0) = Some (Inr (m2, Some cg))
              \<and> len cg < n \<and> p \<in> set (coordList cg) \<and> distinct (coordList cg)
              \<and> (\<forall>q\<in>set (coordList cg). inside mb q \<and> cell (grains (fst s)) q = - 2)))"
  using r
proof (induction rule: seg_reach.induct)
  case reach_start
  have "cell (grains mb) p \<noteq> - 2" if "inside mb p" for p
  proof -
    from ok that have "cell (grains mb) p = 0 \<or> cell (grains mb) p = - 1"
      unfolding start_ok_def by blast
    then show ?thesis by auto
  qed
  with seg_inv_start[OF ok] show ?case by auto
next
  case (reach_turn m k up s')
  let ?s0 = "(mb, 1, np_where_eq (grains mb) 0)"
  from reach_turn.IH have inv: "seg_inv mb n m k" and up: "up = np_where_eq (grains m) 0"
    and hist: "\<And>p. inside mb p \<Longrightarrow> cell (grains m) p = - 2 \<Longrightarrow>
            (\<exists>m1 k1 m2 cg.
                seg_reach n ?s0 (m1, k1, np_where_eq (grains m1) 0)
              \<and> fst (np_where_eq (grains m1) 0) \<noteq> []
              \<and> seed_fill m1 k1 (np_where_eq (grains m1) 0) = Some (Inr (m2, Some cg))
              \<and> len cg < n \<and> p \<in> set (coordList cg) \<and> distinct (coordList cg)
              \<and> (\<forall>q\<in>set (coordList cg). inside mb q \<and> cell (grains m) q = - 2))"
    by auto
  from reach_turn.hyps(2) up have ne: "fst (np_where_eq (grains m) 0) \<noteq> []" by simp
  from findGrains_body_inv[OF inv ok ne] reach_turn.hyps(3) up
  obtain m' gi' m1 cg p0 where t: "s' = (m', gi', np_where_eq (grains m') 0)"
    "seg_inv mb n m' gi'"
    "seed_fill m k (np_where_eq (grains m) 0) = Some (Inr (m1, Some cg))"
    "fill_inv m k p0 [] {} m1 cg"
    "\<forall>p. inside mb p \<longrightarrow>
        cell (grains m') p =
          (if p \<in> set (coordList cg) then (if len cg < n then - 2 else k)
           else cell (grains m) p)"
    by blast
  note d = seg_invD[OF inv]
  note io = frame_fields(1)[OF d(1)]
  note f = fill_invD[OF t(4)]
  from d(3) have k1: "1 \<le> k" by simp
  have new: "cell (grains m') p =
          (if p \<in> set (coordList cg) then (if len cg < n then - 2 else k)
           else cell (grains m) p)" if "inside mb p" for p
    using t(5) that by blast
  have clin: "inside mb q" "cell (grains m) q \<noteq> - 2" if "q \<in> set (coordList cg)" for q
    using f(4)[OF that] by (auto simp: io)
  have "\<exists>m1 k1 m2 cg.
                seg_reach n ?s0 (m1, k1, np_where_eq (grains m1) 0)
              \<and> fst (np_where_eq (grains m1) 0) \<noteq> []
              \<and> seed_fill m1 k1 (np_where_eq (grains m1) 0) = Some (Inr (m2, Some cg))
              \<and> len cg < n \<and> p \<in> set (coordList cg) \<and> distinct (coordList cg)
              \<and> (\<forall>q\<in>set (coordList cg). inside mb q \<and> cell (grains m') q = - 2)"
    if p: "inside mb p" "cell (grains m') p = - 2" for p
  proof (cases "p \<in> set (coordList cg)")
    case True
    with new[OF p(1)] p(2) k1 have small: "len cg < n" by (auto split: if_splits)
    from new clin(1) small
    have "\<forall>q\<in>set (coordList cg). inside mb q \<and> cell (grains m') q = - 2" by simp
    with reach_turn.hyps(1) ne t(3) small True up f(5) show ?thesis by blast
  next
    case False
    with new[OF p(1)] p(2) have "cell (grains m) p = - 2" by simp
    from hist[OF p(1) this] obtain ma ka mc cga where
      h: "seg_reach n ?s0 (ma, ka, np_where_eq (grains ma) 0)"
      "fst (np_where_eq (grains ma) 0) \<noteq> []"
      "seed_fill ma ka (np_where_eq (grains ma) 0) = Some (Inr (mc, Some cga))"
      "len cga < n" "p \<in> set (coordList cga)" "distinct (coordList cga)"
      "\<forall>q\<in>set (coordList cga). inside mb q \<and> cell (grains m) q = - 2" by blast
    have "inside mb q \<and> cell (grains m') q = - 2" if "q \<in> set (coordList cga)" for q
    proof -
      from h(7) that have qi: "inside mb q" and q2: "cell (grains m) q = - 2" by blast+
      with clin(2)[of q] have nq: "q \<notin> set (coordList cg)" by auto
      from new[OF qi] nq q2 qi show ?thesis by simp
    qed
    with h show ?thesis by blast
  qed
  with t(1,2) show ?case by simp
qed

text \<open>On a good map the loop does not raise.\<close>

lemma findGrains_loop_good:
  assumes ok: "start_ok mb" and good: "good_map mb"
  shows "seg_inv mb n m k \<Longrightarrow>
     \<exists>m' k'. findGrains_loop n m k (np_where_eq (grains m) 0) = Some (Inr (m', k'))"
proof (induction "zeros (grains m)" arbitrary: m k rule: less_induct)
  case less
  let ?up = "np_where_eq (grains m) 0"
  show ?case
  proof (cases "fst ?up = []")
    case True
    then show ?thesis by (subst findGrains_loop.simps) simp
  next
    case False
    from findGrains_body_inv[OF less.prems ok False] good
    obtain m' gi' where b: "findGrains_body n m k ?up = Some (Inr (m', gi', np_where_eq (grains m') 0))"
      and inv': "seg_inv mb n m' gi'" by blast
    from seg_invD(3)[OF less.prems] have "k \<noteq> 0" by simp
    from findGrains_body_returns[OF False this, of n] b
    have z: "zeros (grains m') < zeros (grains m)" by auto
    from less.hyps[OF z inv'] obtain m2 k2 where
      "findGrains_loop n m' gi' (np_where_eq (grains m') 0) = Some (Inr (m2, k2))" by blast
    with b False show ?thesis by (subst findGrains_loop.simps) simp
  qed
qed

section \<open>The result of the segmentation\<close>

lemma findGrains_start_fields:
  "inside (findGrains_start m boundaries) p = inside m p"
  "rect (findGrains_start m boundaries) g = rect m g"
  "good_map (findGrains_start m boundaries) = good_map m"
proof -
  have sf: "same_frame (m\<lparr>grainList := []\<rparr>) (findGrains_start m boundaries)"
    by (simp add: same_frame_def findGrains_start_def)
  show "inside (findGrains_start m boundaries) p = inside m p"
    by (rule frame_fields(1)[OF sf, symmetric])
  show "rect (findGrains_start m boundaries) g = rect m g"
    by (rule frame_fields(2)[OF sf, symmetric])
  show "good_map (findGrains_start m boundaries) = good_map m"
    by (rule frame_fields(3)[OF sf, symmetric])
qed

lemma findGrains_final:
  assumes rc: "rect m boundaries" and res: "findGrains m boundaries n = Some (Inr m')"
  shows "seg_reach n (findGrains_start m boundaries, 1,
                      np_where_eq (grains (findGrains_start m boundaries)) 0)
           (m', int (length (grainList m')) + 1, np_where_eq (grains m') 0)"
    and "seg_inv (findGrains_start m boundaries) n m' (int (length (grainList m')) + 1)"
    and "fst (np_where_eq (grains m') 0) = []"
proof -
  let ?mb = "findGrains_start m boundaries"
  from res obtain k' where l: "findGrains_loop n ?mb 1 (np_where_eq (grains ?mb) 0)
      = Some (Inr (m', k'))"
    by (auto simp: findGrains_def Let_def split: option.splits sum.splits)
  from findGrains_loop_reach[OF _ l]
  have r: "seg_reach n (?mb, 1, np_where_eq (grains ?mb) 0) (m', k', np_where_eq (grains m') 0)"
    and e: "fst (np_where_eq (grains m') 0) = []" by simp_all
  from seg_reach_inv[OF start_ok_findGrains_start[OF rc] r]
  have inv: "seg_inv ?mb n m' k'" by simp
  from seg_invD(3)[OF inv] have k': "k' = int (length (grainList m')) + 1" .
  from r inv e show "seg_reach n (?mb, 1, np_where_eq (grains ?mb) 0)
           (m', int (length (grainList m')) + 1, np_where_eq (grains m') 0)"
    and "seg_inv ?mb n m' (int (length (grainList m')) + 1)"
    and "fst (np_where_eq (grains m') 0) = []"
    unfolding k' by simp_all
qed

lemma findGrains_good:
  assumes rc: "rect m boundaries" and good: "good_map m"
  shows "\<exists>m'. findGrains m boundaries n = Some (Inr m')"
proof -
  let ?mb = "findGrains_start m boundaries"
  note ok = start_ok_findGrains_start[OF rc]
  from good have "good_map ?mb" by (simp add: findGrains_start_fields)
  from findGrains_loop_good[OF ok this seg_inv_start[OF ok]]
  obtain m' k' where "findGrains_loop n ?mb 1 (np_where_eq (grains ?mb) 0) = Some (Inr (m', k'))"
    by blast
  then show ?thesis by (simp add: findGrains_def Let_def)
qed

lemma good_map_strip: "good_map strip_map"
proof -
  have r: "rect strip_map (max_shear strip_map)" by (simp add: rect_def strip_map_def)
  have "\<exists>v. sample strip_map p = Inr v" if "inside strip_map p" for p
  proof -
    obtain x y where p: "p = (x, y)" by (cases p)
    from np_get_inside[OF r that[unfolded p]] show ?thesis
      by (simp add: sample_def p strip_map_def)
  qed
  then show ?thesis by (simp add: good_map_def field_ok_def strip_map_def)
qed

lemma rect_strip_mask: "rect strip_map strip_mask"
  by (simp add: rect_def strip_map_def strip_mask_def)

lemma findGrains_strip: "findGrains strip_map strip_mask 4 = Some (Inr strip_result)"
  by code_simp

text \<open>
  Claim C4. For a mask of the cropped shape, when the segmentation completes every
  pixel of the label grid holds -1, -2 or a label between 1 and the number of grains,
  and none holds 0. On a good map the segmentation completes.
\<close>

theorem findGrains_labels_final:
  assumes "rect m boundaries"
  shows "(\<forall>m'. findGrains m boundaries n = Some (Inr m') \<longrightarrow>
            rect m (grains m')
          \<and> (\<forall>p. inside m p \<longrightarrow>
                cell (grains m') p \<noteq> 0
              \<and> (cell (grains m') p = - 1 \<or> cell (grains m') p = - 2
                 \<or> (1 \<le> cell (grains m') p
                    \<and> cell (grains m') p \<le> int (length (grainList m'))))))
       \<and> (good_map m \<longrightarrow> (\<exists>m'. findGrains m boundaries n = Some (Inr m')))"
proof (intro conjI allI impI)
  fix m' assume res: "findGrains m boundaries n = Some (Inr m')"
  note fin = findGrains_final[OF assms res]
  note d = seg_invD[OF fin(2)]
  from d(2) show rc: "rect m (grains m')" by (simp add: findGrains_start_fields)
  fix p assume p: "inside m p"
  from np_where_eq_none[OF fin(3) rc p] show z: "cell (grains m') p \<noteq> 0" .
  from p have "inside (findGrains_start m boundaries) p" by (simp add: findGrains_start_fields)
  from d(4)[OF this] z
  show "cell (grains m') p = - 1 \<or> cell (grains m') p = - 2
         \<or> (1 \<le> cell (grains m') p \<and> cell (grains m') p \<le> int (length (grainList m')))"
    by auto
next
  assume "good_map m"
  with assms show "\<exists>m'. findGrains m boundaries n = Some (Inr m')" by (rule findGrains_good)
qed

theorem findGrains_labels_final_witness:
  "findGrains strip_map strip_mask 4 = Some (Inr strip_result)
   \<and> cell (grains strip_result) (2, 0) \<noteq> 0
   \<and> (cell (grains strip_result) (2, 0) = - 1 \<or> cell (grains strip_result) (2, 0) = - 2
      \<or> (1 \<le> cell (grains strip_result) (2, 0)
         \<and> cell (grains strip_result) (2, 0) \<le> int (length (grainList strip_result))))"
proof -
  have i: "inside strip_map (2, 0)" by (simp add: inside_def strip_map_def)
  from findGrains_labels_final[OF rect_strip_mask, of 4] findGrains_strip good_map_strip i
  show ?thesis by blast
qed

text \<open>
  Claim C5. When the segmentation completes, the positive labels of the grid are
  exactly 1 to N, where N is the number of grains of the list; the grain with index
  \<open>i\<close> is not empty and its pixels are exactly the pixels labelled \<open>i + 1\<close>; and in
  every turn of the loop a grain shorter than the threshold leaves the grain list and
  the counter as they were, while any other grain is appended and advances the counter
  by one.
\<close>

theorem findGrains_labels_contiguous:
  assumes "rect m boundaries" "findGrains m boundaries n = Some (Inr m')"
  shows "{cell (grains m') p | p. inside m p \<and> 0 < cell (grains m') p}
           = {1 .. int (length (grainList m'))}
       \<and> (\<forall>i<length (grainList m').
             coordList (grainList m' ! i) \<noteq> []
           \<and> set (coordList (grainList m' ! i))
               = {p. inside m p \<and> cell (grains m') p = int i + 1})
       \<and> (\<forall>m1 k1 s2.
             seg_reach n (findGrains_start m boundaries, 1,
                          np_where_eq (grains (findGrains_start m boundaries)) 0)
                         (m1, k1, np_where_eq (grains m1) 0)
           \<longrightarrow> fst (np_where_eq (grains m1) 0) \<noteq> []
           \<longrightarrow> findGrains_body n m1 k1 (np_where_eq (grains m1) 0) = Some (Inr s2)
           \<longrightarrow> k1 = int (length (grainList m1)) + 1
             \<and> (\<exists>mf cg. seed_fill m1 k1 (np_where_eq (grains m1) 0) = Some (Inr (mf, Some cg))
                  \<and> (if len cg < n
                      then grainList (fst s2) = grainList m1 \<and> fst (snd s2) = k1
                      else grainList (fst s2) = grainList m1 @ [cg]
                         \<and> fst (snd s2) = k1 + 1)))"
proof (intro conjI allI impI)
  let ?mb = "findGrains_start m boundaries"
  let ?N = "length (grainList m')"
  note fin = findGrains_final[OF assms]
  note d = seg_invD[OF fin(2)]
  note io = findGrains_start_fields(1)[of m boundaries]
  have grain: "coordList (grainList m' ! i) \<noteq> []"
    "p \<in> set (coordList (grainList m' ! i)) \<longleftrightarrow> inside m p \<and> cell (grains m') p = int i + 1"
    if "i < ?N" for i p
    using d(5)[of "grainList m' ! i"] d(6)[OF that, of p] that by (simp_all add: io)
  show "{cell (grains m') p | p. inside m p \<and> 0 < cell (grains m') p} = {1 .. int ?N}"
  proof (intro set_eqI iffI)
    fix v assume "v \<in> {cell (grains m') p | p. inside m p \<and> 0 < cell (grains m') p}"
    then obtain p where "v = cell (grains m') p" "inside m p" "0 < cell (grains m') p" by blast
    with d(4)[of p] show "v \<in> {1 .. int ?N}" by (simp add: io)
  next
    fix v assume "v \<in> {1 .. int ?N}"
    then have i: "nat (v - 1) < ?N" and v: "v = int (nat (v - 1)) + 1" by auto
    from grain(1)[OF i] obtain p where "p \<in> set (coordList (grainList m' ! nat (v - 1)))"
      by (cases "coordList (grainList m' ! nat (v - 1))") auto
    with grain(2)[OF i, of p] v have "inside m p" "cell (grains m') p = v" by auto
    with \<open>v \<in> {1 .. int ?N}\<close>
    have "v = cell (grains m') p \<and> inside m p \<and> 0 < cell (grains m') p" by auto
    then show "v \<in> {cell (grains m') p | p. inside m p \<and> 0 < cell (grains m') p}" by blast
  qed
  fix i assume i: "i < ?N"
  from grain(1)[OF i] show "coordList (grainList m' ! i) \<noteq> []" .
  from grain(2)[OF i]
  show "set (coordList (grainList m' ! i)) = {p. inside m p \<and> cell (grains m') p = int i + 1}"
    by blast
next
  let ?mb = "findGrains_start m boundaries"
  fix m1 k1 s2
  assume r: "seg_reach n (?mb, 1, np_where_eq (grains ?mb) 0) (m1, k1, np_where_eq (grains m1) 0)"
    and ne: "fst (np_where_eq (grains m1) 0) \<noteq> []"
    and b: "findGrains_body n m1 k1 (np_where_eq (grains m1) 0) = Some (Inr s2)"
  note ok = start_ok_findGrains_start[OF assms(1)]
  from seg_reach_inv[OF ok r] have inv: "seg_inv ?mb n m1 k1" by simp
  from seg_invD(3)[OF inv] show "k1 = int (length (grainList m1)) + 1" .
  from findGrains_body_inv[OF inv ok ne] b
  obtain m2 gi' mf cg where t: "s2 = (m2, gi', np_where_eq (grains m2) 0)"
    "seed_fill m1 k1 (np_where_eq (grains m1) 0) = Some (Inr (mf, Some cg))"
    "grainList m2 = (if len cg < n then grainList m1 else grainList m1 @ [cg])"
    "gi' = (if len cg < n then k1 else k1 + 1)"
    by blast
  then show "\<exists>mf cg. seed_fill m1 k1 (np_where_eq (grains m1) 0) = Some (Inr (mf, Some cg))
                  \<and> (if len cg < n
                      then grainList (fst s2) = grainList m1 \<and> fst (snd s2) = k1
                      else grainList (fst s2) = grainList m1 @ [cg]
                         \<and> fst (snd s2) = k1 + 1)"
    by auto
qed

lemma strip_first_turn:
  "fst (np_where_eq (grains (findGrains_start strip_map strip_mask)) 0) \<noteq> []"
  "findGrains_body 4 (findGrains_start strip_map strip_mask) 1
       (np_where_eq (grains (findGrains_start strip_map strip_mask)) 0)
     = Some (Inr (strip_map\<lparr>grains := [[1, 1, 0], [1, 1, 0], [1, 1, 0]],
                    grainList := grainList strip_result\<rparr>, 2, ([0, 1, 2], [2, 2, 2])))"
  by code_simp+

theorem findGrains_labels_contiguous_witness:
  "findGrains strip_map strip_mask 4 = Some (Inr strip_result)
   \<and> {cell (grains strip_result) p | p. inside strip_map p \<and> 0 < cell (grains strip_result) p}
       = {1 .. 1}
   \<and> set (coordList (grainList strip_result ! 0))
       = {p. inside strip_map p \<and> cell (grains strip_result) p = 1}
   \<and> (\<exists>mf cg. seed_fill (findGrains_start strip_map strip_mask) 1
                 (np_where_eq (grains (findGrains_start strip_map strip_mask)) 0)
               = Some (Inr (mf, Some cg))
            \<and> \<not> len cg < 4 \<and> grainList strip_result = [cg])"
proof -
  note t = findGrains_labels_contiguous[OF rect_strip_mask findGrains_strip]
  have l: "length (grainList strip_result) = 1" by (simp add: strip_result_def)
  from t l have a: "{cell (grains strip_result) p | p. inside strip_map p
      \<and> 0 < cell (grains strip_result) p} = {1 .. 1}" by simp
  from t l have b: "set (coordList (grainList strip_result ! 0))
       = {p. inside strip_map p \<and> cell (grains strip_result) p = 1}" by simp
  let ?mb = "findGrains_start strip_map strip_mask"
  let ?up = "np_where_eq (grains ?mb) 0"
  note c3 = t[THEN conjunct2, THEN conjunct2, rule_format,
               OF seg_reach.reach_start strip_first_turn(1) strip_first_turn(2)]
  then obtain mf cg where "seed_fill ?mb 1 ?up = Some (Inr (mf, Some cg))"
    "\<not> len cg < 4" "grainList strip_result = grainList ?mb @ [cg]"
    by (auto split: if_splits)
  then have c: "\<exists>mf cg. seed_fill ?mb 1 ?up = Some (Inr (mf, Some cg))
            \<and> \<not> len cg < 4 \<and> grainList strip_result = [cg]"
    by (auto simp: findGrains_start_def)
  from findGrains_strip a b c show ?thesis by blast
qed

text \<open>
  Claim C6. When the segmentation completes, every grain of the list has at least
  \<open>minGrainSize\<close> pixels, counted over all pixels that bear its label (those it found
  unknown and the boundary pixels it absorbed); and every pixel that holds -2 lies in a
  grain that a turn of the loop filled and found shorter than \<open>minGrainSize\<close>, again
  counted over all its pixels, all of which hold -2.
\<close>

theorem findGrains_size_floor:
  assumes "rect m boundaries" "findGrains m boundaries n = Some (Inr m')"
  shows "(\<forall>i<length (grainList m').
             n \<le> len (grainList m' ! i)
           \<and> len (grainList m' ! i)
               = int (card {p. inside m p \<and> cell (grains m') p = int i + 1}))
       \<and> (\<forall>p. inside m p \<longrightarrow> cell (grains m') p = - 2 \<longrightarrow>
            (\<exists>m1 k1 mf cg.
                seg_reach n (findGrains_start m boundaries, 1,
                             np_where_eq (grains (findGrains_start m boundaries)) 0)
                            (m1, k1, np_where_eq (grains m1) 0)
              \<and> fst (np_where_eq (grains m1) 0) \<noteq> []
              \<and> seed_fill m1 k1 (np_where_eq (grains m1) 0) = Some (Inr (mf, Some cg))
              \<and> len cg < n \<and> p \<in> set (coordList cg)
              \<and> len cg = int (card (set (coordList cg)))
              \<and> (\<forall>q\<in>set (coordList cg). inside m q \<and> cell (grains m') q = - 2)))"
proof (intro conjI allI impI)
  let ?mb = "findGrains_start m boundaries"
  note fin = findGrains_final[OF assms]
  note d = seg_invD[OF fin(2)]
  note io = findGrains_start_fields(1)[of m boundaries]
  fix i assume i: "i < length (grainList m')"
  then have mem: "grainList m' ! i \<in> set (grainList m')" by simp
  from d(5)[OF mem] show "n \<le> len (grainList m' ! i)" by simp
  from d(6)[OF i] have "set (coordList (grainList m' ! i))
      = {p. inside m p \<and> cell (grains m') p = int i + 1}" by (auto simp: io)
  with d(5)[OF mem] distinct_card[of "coordList (grainList m' ! i)"]
  show "len (grainList m' ! i) = int (card {p. inside m p \<and> cell (grains m') p = int i + 1})"
    by (simp add: len_def)
next
  let ?mb = "findGrains_start m boundaries"
  let ?s0 = "(?mb, 1, np_where_eq (grains ?mb) 0)"
  note fin = findGrains_final[OF assms]
  note io = findGrains_start_fields(1)[of m boundaries]
  fix p assume p: "inside m p" "cell (grains m') p = - 2"
  from p(1) have pin: "inside ?mb p" by (simp add: io)
  from seg_reach_inv[OF start_ok_findGrains_start[OF assms(1)] fin(1)]
  have "\<forall>p. inside ?mb p \<longrightarrow> cell (grains m') p = - 2 \<longrightarrow>
            (\<exists>m1 k1 m2 cg.
                seg_reach n ?s0 (m1, k1, np_where_eq (grains m1) 0)
              \<and> fst (np_where_eq (grains m1) 0) \<noteq> []
              \<and> seed_fill m1 k1 (np_where_eq (grains m1) 0) = Some (Inr (m2, Some cg))
              \<and> len cg < n \<and> p \<in> set (coordList cg) \<and> distinct (coordList cg)
              \<and> (\<forall>q\<in>set (coordList cg). inside ?mb q \<and> cell (grains m') q = - 2))"
    by simp
  from this[rule_format, OF pin p(2)]
  obtain m1 k1 mf cg where h: "seg_reach n ?s0 (m1, k1, np_where_eq (grains m1) 0)"
    "fst (np_where_eq (grains m1) 0) \<noteq> []"
    "seed_fill m1 k1 (np_where_eq (grains m1) 0) = Some (Inr (mf, Some cg))"
    "len cg < n" "p \<in> set (coordList cg)" "distinct (coordList cg)"
    "\<forall>q\<in>set (coordList cg). inside m q \<and> cell (grains m') q = - 2"
    unfolding io by blast
  from h(6) have "len cg = int (card (set (coordList cg)))"
    by (simp add: len_def distinct_card)
  with h show "\<exists>m1 k1 mf cg.
                seg_reach n ?s0 (m1, k1, np_where_eq (grains m1) 0)
              \<and> fst (np_where_eq (grains m1) 0) \<noteq> []
              \<and> seed_fill m1 k1 (np_where_eq (grains m1) 0) = Some (Inr (mf, Some cg))
              \<and> len cg < n \<and> p \<in> set (coordList cg)
              \<and> len cg = int (card (set (coordList cg)))
              \<and> (\<forall>q\<in>set (coordList cg). inside m q \<and> cell (grains m') q = - 2)"
    by blast
qed

theorem findGrains_size_floor_witness:
  "findGrains strip_map strip_mask 4 = Some (Inr strip_result)
   \<and> 4 \<le> len (grainList strip_result ! 0)
   \<and> len (grainList strip_result ! 0)
       = int (card {p. inside strip_map p \<and> cell (grains strip_result) p = 1})
   \<and> (\<exists>m1 k1 mf cg.
          seed_fill m1 k1 (np_where_eq (grains m1) 0) = Some (Inr (mf, Some cg))
        \<and> len cg < 4 \<and> (2, 0) \<in> set (coordList cg))"
proof -
  note t = findGrains_size_floor[OF rect_strip_mask findGrains_strip]
  have l: "0 < length (grainList strip_result)" by (simp add: strip_result_def)
  have i: "inside strip_map (2, 0)" by (simp add: inside_def strip_map_def)
  have c: "cell (grains strip_result) (2, 0) = - 2" by (simp add: cell_def strip_result_def)
  from t l have a: "4 \<le> len (grainList strip_result ! 0)
     \<and> len (grainList strip_result ! 0)
       = int (card {p. inside strip_map p \<and> cell (grains strip_result) p = 1})"
    by auto
  from t i c have "\<exists>m1 k1 mf cg.
          seed_fill m1 k1 (np_where_eq (grains m1) 0) = Some (Inr (mf, Some cg))
        \<and> len cg < 4 \<and> (2, 0) \<in> set (coordList cg)" by blast
  with a findGrains_strip show ?thesis by blast
qed

section \<open>Termination\<close>

lemma np_where_all_boundary:
  assumes "\<forall>row\<in>set boundaries. \<forall>b\<in>set row. b"
  shows "fst (np_where_eq (label_grid boundaries) 0) = []"
proof -
  let ?g = "label_grid boundaries"
  have "?g ! i ! j \<noteq> 0" if "i < length ?g" "j < length (?g ! i)" for i j
  proof -
    from that have i: "i < length boundaries" and j: "j < length (boundaries ! i)"
      by (simp_all add: label_grid_def)
    then have "boundaries ! i ! j" using assms by (meson nth_mem)
    with i j show ?thesis by (simp add: label_grid_def)
  qed
  then have "filter (\<lambda>j. ?g ! i ! j = 0) [0..<length (?g ! i)] = []" if "i < length ?g" for i
    using that by (simp add: filter_empty_conv)
  then show ?thesis by (simp add: np_where_eq_def Let_def)
qed

text \<open>
  Claim C7. The segmentation returns for every map, every mask and every threshold. A
  turn of the loop that starts with an unknown point returns, and when it does not
  raise, fewer pixels hold 0 after it than before; the flood fill it runs from an
  unknown pixel has the seed in its grain and has labelled it. A mask that is all
  boundary gives at once the starting map, with an empty grain list. On a good map with
  a mask of the cropped shape the segmentation does not raise.
\<close>

theorem findGrains_terminates:
  "(\<exists>r. findGrains m boundaries n = Some r)
   \<and> (\<forall>m1 k. k \<noteq> 0 \<longrightarrow> fst (np_where_eq (grains m1) 0) \<noteq> [] \<longrightarrow>
         (\<exists>r. findGrains_body n m1 k (np_where_eq (grains m1) 0) = Some r
            \<and> (\<forall>m2 k2 up2. r = Inr (m2, k2, up2) \<longrightarrow> zeros (grains m2) < zeros (grains m1))))
   \<and> (\<forall>m1 m2 gr x y k. rect m1 (grains m1) \<longrightarrow> inside m1 (x, y)
         \<longrightarrow> cell (grains m1) (x, y) = 0 \<longrightarrow> k \<noteq> 0 \<longrightarrow> k \<noteq> - 1
         \<longrightarrow> floodFill m1 x y k = Some (Inr (m2, Some gr))
         \<longrightarrow> (x, y) \<in> set (coordList gr) \<and> cell (grains m2) (x, y) = k)
   \<and> ((\<forall>row\<in>set boundaries. \<forall>b\<in>set row. b) \<longrightarrow>
         findGrains m boundaries n = Some (Inr (findGrains_start m boundaries))
       \<and> grainList (findGrains_start m boundaries) = [])
   \<and> (rect m boundaries \<longrightarrow> good_map m \<longrightarrow>
         (\<exists>m'. findGrains m boundaries n = Some (Inr m')))"
proof (intro conjI allI impI)
  show "\<exists>r. findGrains m boundaries n = Some r" by (rule findGrains_returns)
next
  fix m1 :: dic_map and k :: int assume "k \<noteq> 0" "fst (np_where_eq (grains m1) 0) \<noteq> []"
  from findGrains_body_returns[OF this(2,1), of n]
  show "\<exists>r. findGrains_body n m1 k (np_where_eq (grains m1) 0) = Some r
            \<and> (\<forall>m2 k2 up2. r = Inr (m2, k2, up2) \<longrightarrow> zeros (grains m2) < zeros (grains m1))"
    by blast
next
  fix m1 m2 :: dic_map and gr :: grain and x y k :: int
  assume a: "rect m1 (grains m1)" "inside m1 (x, y)" "cell (grains m1) (x, y) = 0"
    "k \<noteq> 0" "k \<noteq> - 1" "floodFill m1 x y k = Some (Inr (m2, Some gr))"
  from floodFill_inv[OF a(1-5)] a(6) have fi: "fill_inv m1 k (x, y) [] {} m2 gr" by auto
  note f = fill_invD[OF fi]
  from f(7) show "(x, y) \<in> set (coordList gr)" .
  with f(3)[OF a(2)] show "cell (grains m2) (x, y) = k" by simp
next
  assume all: "\<forall>row\<in>set boundaries. \<forall>b\<in>set row. b"
  let ?mb = "findGrains_start m boundaries"
  from np_where_all_boundary[OF all]
  have e: "fst (np_where_eq (grains ?mb) 0) = []" by (simp add: findGrains_start_def)
  then have "findGrains_loop n ?mb 1 (np_where_eq (grains ?mb) 0) = Some (Inr (?mb, 1))"
    by (subst findGrains_loop.simps) simp
  then show "findGrains m boundaries n = Some (Inr ?mb)"
    by (simp add: findGrains_def Let_def)
  show "grainList ?mb = []" by (simp add: findGrains_start_def)
next
  assume "rect m boundaries" "good_map m"
  then show "\<exists>m'. findGrains m boundaries n = Some (Inr m')" by (rule findGrains_good)
qed

theorem findGrains_terminates_witness:
  "findGrains strip_map wall_mask 4 = Some (Inr (findGrains_start strip_map wall_mask))
   \<and> grainList (findGrains_start strip_map wall_mask) = []
   \<and> (\<exists>m'. findGrains strip_map strip_mask 4 = Some (Inr m'))
   \<and> zeros [[1, 1, 0], [1, 1, 0], [1, 1, 0]]
       < zeros (grains (findGrains_start strip_map strip_mask))"
proof -
  have w: "\<forall>row\<in>set wall_mask. \<forall>b\<in>set row. b" by (simp add: wall_mask_def)
  note t = findGrains_terminates[of strip_map wall_mask 4]
  note s = findGrains_terminates[of strip_map strip_mask 4]
  from t w have a: "findGrains strip_map wall_mask 4
        = Some (Inr (findGrains_start strip_map wall_mask))
      \<and> grainList (findGrains_start strip_map wall_mask) = []" by blast
  from s rect_strip_mask good_map_strip
  have b: "\<exists>m'. findGrains strip_map strip_mask 4 = Some (Inr m')" by blast
  let ?mb = "findGrains_start strip_map strip_mask"
  from s have "(1::int) \<noteq> 0 \<longrightarrow> fst (np_where_eq (grains ?mb) 0) \<noteq> [] \<longrightarrow>
         (\<exists>r. findGrains_body 4 ?mb 1 (np_where_eq (grains ?mb) 0) = Some r
            \<and> (\<forall>m2 k2 up2. r = Inr (m2, k2, up2) \<longrightarrow> zeros (grains m2) < zeros (grains ?mb)))"
    by blast
  with strip_first_turn
  have "zeros (grains (strip_map\<lparr>grains := [[1, 1, 0], [1, 1, 0], [1, 1, 0]],
                    grainList := grainList strip_result\<rparr>)) < zeros (grains ?mb)"
    by auto
  then have c: "zeros [[1, 1, 0], [1, 1, 0], [1, 1, 0]] < zeros (grains ?mb)" by simp
  from a b c show ?thesis by blast
qed

section \<open>The shape of a filled grain\<close>

lemma forward_adjacent: "forward q b \<Longrightarrow> adjacent q b"
  by (auto simp: forward_def adjacent_def)

lemma visit_boundary_newedge:
  assumes "visit k p st q = Inr st'" "np_get (grains (fmap st)) (snd q) (fst q) = Inr (- 1)"
  shows "newedge st' = newedge st"
  using assms
  by (cases p, cases q) (auto simp: visit_def split: sum.splits if_splits)

lemma strip_fill:
  "floodFill (findGrains_start strip_map strip_mask) 0 0 1
     = Some (Inr ((findGrains_start strip_map strip_mask)
                     \<lparr>grains := [[1, 1, 0], [1, 1, 0], [1, 1, 0]]\<rparr>,
                  Some (grainList strip_result ! 0)))"
  by code_simp

text \<open>
  Claim C10. A flood fill from an unknown pixel inside a grid of the cropped shape, with
  a label other than 0 and -1, returns a grain when it does not raise. Every pixel of
  the grain held 0 or -1 before; every pixel of the grain that held 0 is connected to
  the seed by 4-adjacent steps through pixels of the grain that held 0; every pixel of
  the grain that held -1 is the right or lower neighbour, hence 4-adjacent, of a pixel
  of the grain that held 0. A visit of a neighbour that holds -1 leaves the new
  frontier as it was. On a good map the fill does not raise.
\<close>

theorem floodFill_connected:
  assumes "rect m (grains m)" "inside m (x, y)" "cell (grains m) (x, y) = 0"
    and "k \<noteq> 0" "k \<noteq> - 1"
  shows "(\<forall>m' og. floodFill m x y k = Some (Inr (m', og)) \<longrightarrow>
           (\<exists>gr. og = Some gr
              \<and> (\<forall>p\<in>set (coordList gr).
                    inside m p \<and> (cell (grains m) p = 0 \<or> cell (grains m) p = - 1))
              \<and> (\<forall>p\<in>set (coordList gr). cell (grains m) p = 0 \<longrightarrow>
                    conn {r \<in> set (coordList gr). cell (grains m) r = 0} (x, y) p)
              \<and> (\<forall>b\<in>set (coordList gr). cell (grains m) b = - 1 \<longrightarrow>
                    (\<exists>q\<in>set (coordList gr).
                        cell (grains m) q = 0 \<and> forward q b \<and> adjacent q b))))
       \<and> (\<forall>(st :: fill_state) p q st'.
             visit k p st q = Inr st'
             \<longrightarrow> np_get (grains (fmap st)) (snd q) (fst q) = Inr (- 1)
             \<longrightarrow> newedge st' = newedge st)
       \<and> (good_map m \<longrightarrow> (\<exists>m' gr. floodFill m x y k = Some (Inr (m', Some gr))))"
proof (intro conjI allI impI)
  fix m' og assume "floodFill m x y k = Some (Inr (m', og))"
  with floodFill_inv[OF assms] obtain gr where og: "og = Some gr"
    and fi: "fill_inv m k (x, y) [] {} m' gr" by blast
  note f = fill_invD[OF fi]
  have b: "\<exists>q\<in>set (coordList gr). cell (grains m) q = 0 \<and> forward q b \<and> adjacent q b"
    if "b \<in> set (coordList gr)" "cell (grains m) b = - 1" for b
  proof -
    from f(4)[OF that(1)] have "inside m b" by simp
    from f(11)[OF this that(2)] that(1) obtain q where "q \<in> set (coordList gr)"
      "cell (grains m) q = 0" "forward q b" by auto
    with forward_adjacent[of q b] show ?thesis by blast
  qed
  from og f(4) f(10) b
  show "\<exists>gr. og = Some gr
              \<and> (\<forall>p\<in>set (coordList gr).
                    inside m p \<and> (cell (grains m) p = 0 \<or> cell (grains m) p = - 1))
              \<and> (\<forall>p\<in>set (coordList gr). cell (grains m) p = 0 \<longrightarrow>
                    conn {r \<in> set (coordList gr). cell (grains m) r = 0} (x, y) p)
              \<and> (\<forall>b\<in>set (coordList gr). cell (grains m) b = - 1 \<longrightarrow>
                    (\<exists>q\<in>set (coordList gr).
                        cell (grains m) q = 0 \<and> forward q b \<and> adjacent q b))"
    by blast
next
  fix st :: fill_state and p q st'
  assume "visit k p st q = Inr st'" "np_get (grains (fmap st)) (snd q) (fst q) = Inr (- 1)"
  then show "newedge st' = newedge st" by (rule visit_boundary_newedge)
next
  assume "good_map m"
  with floodFill_inv[OF assms] show "\<exists>m' gr. floodFill m x y k = Some (Inr (m', Some gr))"
    by blast
qed

theorem floodFill_connected_witness:
  "floodFill (findGrains_start strip_map strip_mask) 0 0 1
     = Some (Inr ((findGrains_start strip_map strip_mask)
                     \<lparr>grains := [[1, 1, 0], [1, 1, 0], [1, 1, 0]]\<rparr>,
                  Some (grainList strip_result ! 0)))
   \<and> conn {r \<in> set (coordList (grainList strip_result ! 0)).
              cell (grains (findGrains_start strip_map strip_mask)) r = 0} (0, 0) (0, 2)
   \<and> (\<exists>q. q \<in> set (coordList (grainList strip_result ! 0))
          \<and> cell (grains (findGrains_start strip_map strip_mask)) q = 0 \<and> adjacent q (1, 2))"
proof -
  let ?mb = "findGrains_start strip_map strip_mask"
  have r: "rect ?mb (grains ?mb)"
    by (simp add: rect_def findGrains_start_def strip_map_def strip_mask_def label_grid_def)
  have i: "inside ?mb (0, 0)" by (simp add: inside_def findGrains_start_def strip_map_def)
  have c: "cell (grains ?mb) (0, 0) = 0"
    by (simp add: cell_def findGrains_start_def strip_mask_def label_grid_def)
  have k: "(1::int) \<noteq> 0" "(1::int) \<noteq> - 1" by simp_all
  let ?gr = "grainList strip_result ! 0"
  from floodFill_connected[OF r i c k] strip_fill
  obtain gr where gr: "Some ?gr = Some gr"
    and cn: "\<forall>p\<in>set (coordList gr). cell (grains ?mb) p = 0 \<longrightarrow>
                    conn {r \<in> set (coordList gr). cell (grains ?mb) r = 0} (0, 0) p"
    and bd: "\<forall>b\<in>set (coordList gr). cell (grains ?mb) b = - 1 \<longrightarrow>
                    (\<exists>q\<in>set (coordList gr).
                        cell (grains ?mb) q = 0 \<and> forward q b \<and> adjacent q b)"
    by blast
  from gr have g: "gr = ?gr" by simp
  have m1: "(0, 2) \<in> set (coordList ?gr)" "cell (grains ?mb) (0, 2) = 0"
    by (simp_all add: strip_result_def cell_def findGrains_start_def strip_mask_def label_grid_def)
  have m2: "(1, 2) \<in> set (coordList ?gr)" "cell (grains ?mb) (1, 2) = - 1"
    by (simp_all add: strip_result_def cell_def findGrains_start_def strip_mask_def label_grid_def)
  from cn m1 have a: "conn {r \<in> set (coordList ?gr). cell (grains ?mb) r = 0} (0, 0) (0, 2)"
    unfolding g by blast
  from bd m2 have b: "\<exists>q. q \<in> set (coordList ?gr) \<and> cell (grains ?mb) q = 0 \<and> adjacent q (1, 2)"
    unfolding g by blast
  from strip_fill a b show ?thesis by blast
qed

section \<open>Boundary pixels\<close>

lemma np_get_np_set:
  assumes "np_set g t s v = Inr g'"
  shows "np_get g' t s = Inr v"
proof -
  from assms obtain i j where i: "np_index (length g) t = Inr i"
    and j: "np_index (length (g ! i)) s = Inr j" and g': "g' = g[i := (g ! i)[j := v]]"
    by (auto simp: np_set_def split: sum.splits)
  from i j have "i < length g" "j < length (g ! i)" by (auto dest: np_index_less)
  with i j show ?thesis by (simp add: np_get_def g')
qed

lemma distinct_count_list: "distinct xs \<Longrightarrow> count_list xs a \<le> 1"
  by (induction xs) (auto simp: count_list_0_iff)

text \<open>
  The rule of a single visit: a neighbour that holds -1 is appended to the grain and
  relabelled exactly when it lies to the right of or below the frontier pixel, and
  otherwise nothing changes.
\<close>

lemma visit_boundary_rule:
  assumes v: "visit k (x, y) st (s, t) = Inr st'"
    and b: "np_get (grains (fmap st)) t s = Inr (- 1)"
  shows "(s > x \<or> t > y) \<longleftrightarrow>
           coordList (currentGrain st') = coordList (currentGrain st) @ [(s, t)]"
    and "s > x \<or> t > y \<Longrightarrow> np_get (grains (fmap st')) t s = Inr k"
    and "\<not> (s > x \<or> t > y) \<Longrightarrow> st' = st"
proof -
  show r3: "\<not> (s > x \<or> t > y) \<Longrightarrow> st' = st"
    using v b by (auto simp: visit_def)
  have fw: "coordList (currentGrain st') = coordList (currentGrain st) @ [(s, t)]
          \<and> np_get (grains (fmap st')) t s = Inr k" if "s > x \<or> t > y"
  proof -
    from v b that obtain ms g' where g': "np_set (grains (fmap st)) t s k = Inr g'"
      and st': "st' = \<lparr>fmap = (fmap st)\<lparr>grains := g'\<rparr>,
                       currentGrain = addPoint (currentGrain st) (s, t) ms,
                       newedge = newedge st\<rparr>"
      by (auto simp: visit_def split: sum.splits)
    from np_get_np_set[OF g'] show ?thesis by (simp add: st' addPoint_def)
  qed
  then show "s > x \<or> t > y \<Longrightarrow> np_get (grains (fmap st')) t s = Inr k" by simp
  show "(s > x \<or> t > y) \<longleftrightarrow>
           coordList (currentGrain st') = coordList (currentGrain st) @ [(s, t)]"
    using fw r3 by auto
qed

text \<open>
  After the segmentation, a boundary pixel has lost the label -1 exactly when its left
  or its upper neighbour is a pixel of the grid off the boundary; it then holds the
  label of such a neighbour, and it lies in at most one grain of the list, once.
\<close>

lemma boundary_absorbed:
  assumes rc: "rect m boundaries" and res: "findGrains m boundaries n = Some (Inr m')"
    and b: "inside m b" "cell boundaries b"
  shows "cell (grains m') b \<noteq> 0"
    and "cell (grains m') b \<noteq> - 1 \<longleftrightarrow> (\<exists>q. inside m q \<and> \<not> cell boundaries q \<and> forward q b)"
    and "cell (grains m') b \<noteq> - 1 \<Longrightarrow>
           \<exists>q. inside m q \<and> \<not> cell boundaries q \<and> forward q b
              \<and> cell (grains m') q = cell (grains m') b"
    and "cell (grains m') b = - 1 \<or> cell (grains m') b = - 2
         \<or> (\<exists>!i. i < length (grainList m') \<and> b \<in> set (coordList (grainList m' ! i)))"
    and "\<forall>i<length (grainList m'). count_list (coordList (grainList m' ! i)) b \<le> 1"
proof -
  let ?mb = "findGrains_start m boundaries"
  note fin = findGrains_final[OF rc res]
  note d = seg_invD[OF fin(2)]
  note io = findGrains_start_fields(1)[of m boundaries]
  have lab: "cell (grains ?mb) p = (if cell boundaries p then - 1 else 0)" if "inside m p" for p
    using cell_label_grid[OF rc that] by (simp add: findGrains_start_def)
  from d(2) have rc': "rect m (grains m')" by (simp add: findGrains_start_fields)
  have nz: "cell (grains m') p \<noteq> 0" if "inside m p" for p
    using np_where_eq_none[OF fin(3) rc' that] .
  from b have bi: "inside ?mb b" and bl: "cell (grains ?mb) b = - 1" by (simp_all add: io lab)
  show "cell (grains m') b \<noteq> 0" using nz[OF b(1)] .
  show "cell (grains m') b \<noteq> - 1 \<longleftrightarrow> (\<exists>q. inside m q \<and> \<not> cell boundaries q \<and> forward q b)"
  proof
    assume "cell (grains m') b \<noteq> - 1"
    with d(9)[OF bi bl] obtain q where q: "inside m q" "cell (grains ?mb) q = 0" "forward q b"
      by (auto simp: io)
    with lab[of q] have "\<not> cell boundaries q" by (auto split: if_splits)
    with q show "\<exists>q. inside m q \<and> \<not> cell boundaries q \<and> forward q b" by blast
  next
    assume "\<exists>q. inside m q \<and> \<not> cell boundaries q \<and> forward q b"
    then obtain q where q: "inside m q" "\<not> cell boundaries q" "forward q b" by blast
    with lab[of q] nz[of q] have "inside ?mb q \<and> cell (grains ?mb) q = 0 \<and> forward q b
        \<and> cell (grains m') q \<noteq> 0" by (simp add: io)
    with d(9)[OF bi bl] show "cell (grains m') b \<noteq> - 1" by blast
  qed
  show "\<exists>q. inside m q \<and> \<not> cell boundaries q \<and> forward q b
              \<and> cell (grains m') q = cell (grains m') b" if "cell (grains m') b \<noteq> - 1"
  proof -
    from d(10)[OF bi bl that] obtain q where q: "inside m q" "cell (grains ?mb) q = 0"
      "forward q b" "cell (grains m') q = cell (grains m') b" by (auto simp: io)
    with lab[of q] have "\<not> cell boundaries q" by (auto split: if_splits)
    with q show ?thesis by blast
  qed
  show "cell (grains m') b = - 1 \<or> cell (grains m') b = - 2
         \<or> (\<exists>!i. i < length (grainList m') \<and> b \<in> set (coordList (grainList m' ! i)))"
  proof (cases "1 \<le> cell (grains m') b")
    case True
    let ?i = "nat (cell (grains m') b - 1)"
    from True d(4)[OF bi] have i: "?i < length (grainList m')"
      and c: "cell (grains m') b = int ?i + 1" by auto
    from d(6)[OF i, of b] bi c have "b \<in> set (coordList (grainList m' ! ?i))" by simp
    moreover have "j = ?i"
      if "j < length (grainList m')" "b \<in> set (coordList (grainList m' ! j))" for j
      using d(6)[OF that(1), of b] that(2) by simp
    ultimately have "\<exists>!i. i < length (grainList m') \<and> b \<in> set (coordList (grainList m' ! i))"
      using i by blast
    then show ?thesis by simp
  next
    case False
    with d(4)[OF bi] nz[OF b(1)] show ?thesis by auto
  qed
  show "\<forall>i<length (grainList m'). count_list (coordList (grainList m' ! i)) b \<le> 1"
  proof (intro allI impI)
    fix i assume "i < length (grainList m')"
    then have "grainList m' ! i \<in> set (grainList m')" by simp
    from d(5)[OF this] have "distinct (coordList (grainList m' ! i))" by simp
    then show "count_list (coordList (grainList m' ! i)) b \<le> 1"
      by (rule distinct_count_list)
  qed
qed

lemma vertical_line_strip: "vertical_line strip_map strip_mask 1"
proof -
  have "cell strip_mask p = (fst p = 1)" if "inside strip_map p" for p
  proof -
    obtain x y where p: "p = (x, y)" by (cases p)
    from that have "(x = 0 \<or> x = 1 \<or> x = 2) \<and> (y = 0 \<or> y = 1 \<or> y = 2)"
      by (auto simp: inside_def strip_map_def p)
    then show ?thesis by (auto simp: p cell_def strip_mask_def)
  qed
  with rect_strip_mask show ?thesis by (simp add: vertical_line_def strip_map_def)
qed

text \<open>
  Claim C3. A neighbour that holds -1 is absorbed by a visit exactly when it lies to the
  right of or below the frontier pixel (\<open>s > x\<close> or \<open>t > y\<close>): then it is appended to
  the grain and relabelled, otherwise the visit changes nothing. For a mask of two
  blocks separated by one boundary column, after the segmentation every pixel of the
  column holds the label of its left neighbour, which is neither -1 nor 0: it was
  absorbed with the grain of the left block. It is in exactly one grain of the list,
  unless that grain was dropped and it holds -2, and in no grain twice. The same holds
  for a boundary row and the upper neighbour.
\<close>

theorem boundary_line_absorbed_once:
  "(\<forall>(st :: fill_state) x y s t st'.
       visit k (x, y) st (s, t) = Inr st' \<longrightarrow> np_get (grains (fmap st)) t s = Inr (- 1) \<longrightarrow>
         ((s > x \<or> t > y) \<longleftrightarrow>
            coordList (currentGrain st') = coordList (currentGrain st) @ [(s, t)])
       \<and> (s > x \<or> t > y \<longrightarrow> np_get (grains (fmap st')) t s = Inr k)
       \<and> (\<not> (s > x \<or> t > y) \<longrightarrow> st' = st))
   \<and> (\<forall>m boundaries c n m' b.
         vertical_line m boundaries c \<longrightarrow> findGrains m boundaries n = Some (Inr m')
         \<longrightarrow> inside m b \<longrightarrow> cell boundaries b \<longrightarrow>
           cell (grains m') b = cell (grains m') (fst b - 1, snd b)
         \<and> cell (grains m') b \<noteq> - 1 \<and> cell (grains m') b \<noteq> 0
         \<and> (cell (grains m') b = - 2
            \<or> (\<exists>!i. i < length (grainList m') \<and> b \<in> set (coordList (grainList m' ! i))))
         \<and> (\<forall>i<length (grainList m'). count_list (coordList (grainList m' ! i)) b \<le> 1))
   \<and> (\<forall>m boundaries c n m' b.
         horizontal_line m boundaries c \<longrightarrow> findGrains m boundaries n = Some (Inr m')
         \<longrightarrow> inside m b \<longrightarrow> cell boundaries b \<longrightarrow>
           cell (grains m') b = cell (grains m') (fst b, snd b - 1)
         \<and> cell (grains m') b \<noteq> - 1 \<and> cell (grains m') b \<noteq> 0
         \<and> (cell (grains m') b = - 2
            \<or> (\<exists>!i. i < length (grainList m') \<and> b \<in> set (coordList (grainList m' ! i))))
         \<and> (\<forall>i<length (grainList m'). count_list (coordList (grainList m' ! i)) b \<le> 1))"
proof (intro conjI)
  show "\<forall>(st :: fill_state) x y s t st'.
       visit k (x, y) st (s, t) = Inr st' \<longrightarrow> np_get (grains (fmap st)) t s = Inr (- 1) \<longrightarrow>
         ((s > x \<or> t > y) \<longleftrightarrow>
            coordList (currentGrain st') = coordList (currentGrain st) @ [(s, t)])
       \<and> (s > x \<or> t > y \<longrightarrow> np_get (grains (fmap st')) t s = Inr k)
       \<and> (\<not> (s > x \<or> t > y) \<longrightarrow> st' = st)"
  proof (intro allI impI)
    fix st :: fill_state and x y s t st'
    assume v: "visit k (x, y) st (s, t) = Inr st'"
      and b: "np_get (grains (fmap st)) t s = Inr (- 1)"
    note r = visit_boundary_rule[OF v b]
    from r(1) r(2) r(3)
    show "((s > x \<or> t > y) \<longleftrightarrow>
            coordList (currentGrain st') = coordList (currentGrain st) @ [(s, t)])
       \<and> (s > x \<or> t > y \<longrightarrow> np_get (grains (fmap st')) t s = Inr k)
       \<and> (\<not> (s > x \<or> t > y) \<longrightarrow> st' = st)"
      by (intro conjI impI)
  qed
next
  show "\<forall>m boundaries c n m' b.
         vertical_line m boundaries c \<longrightarrow> findGrains m boundaries n = Some (Inr m')
         \<longrightarrow> inside m b \<longrightarrow> cell boundaries b \<longrightarrow>
           cell (grains m') b = cell (grains m') (fst b - 1, snd b)
         \<and> cell (grains m') b \<noteq> - 1 \<and> cell (grains m') b \<noteq> 0
         \<and> (cell (grains m') b = - 2
            \<or> (\<exists>!i. i < length (grainList m') \<and> b \<in> set (coordList (grainList m' ! i))))
         \<and> (\<forall>i<length (grainList m'). count_list (coordList (grainList m' ! i)) b \<le> 1)"
  proof (intro allI impI)
    fix m boundaries c n m' b
    assume vl: "vertical_line m boundaries c"
      and res: "findGrains m boundaries n = Some (Inr m')"
      and b: "inside m b" "cell boundaries b"
    from vl have rc: "rect m boundaries" and c: "0 < c" "c < xDim m - 1"
      and mask: "\<And>p. inside m p \<Longrightarrow> cell boundaries p = (fst p = c)"
      by (auto simp: vertical_line_def)
    note ba = boundary_absorbed[OF rc res b]
    from mask[OF b(1)] b(2) have fb: "fst b = c" by simp
    let ?q = "(fst b - 1, snd b)"
    from b(1) c fb have qi: "inside m ?q" by (auto simp: inside_def)
    from mask[OF qi] fb have qn: "\<not> cell boundaries ?q" by simp
    have fw: "forward ?q b" by (simp add: forward_def)
    from ba(2) qi qn fw have n1: "cell (grains m') b \<noteq> - 1" by blast
    from ba(3)[OF n1] obtain q where q: "inside m q" "\<not> cell boundaries q" "forward q b"
      "cell (grains m') q = cell (grains m') b" by blast
    have "q = ?q"
    proof (rule ccontr)
      assume "q \<noteq> ?q"
      with q(3) have "q = (fst b, snd b - 1)" by (cases q, cases b) (auto simp: forward_def)
      with mask[OF q(1)] fb q(2) show False by simp
    qed
    with q(4) have eq: "cell (grains m') b = cell (grains m') ?q" by simp
    from eq n1 ba(1) ba(4) ba(5)
    show "cell (grains m') b = cell (grains m') (fst b - 1, snd b)
         \<and> cell (grains m') b \<noteq> - 1 \<and> cell (grains m') b \<noteq> 0
         \<and> (cell (grains m') b = - 2
            \<or> (\<exists>!i. i < length (grainList m') \<and> b \<in> set (coordList (grainList m' ! i))))
         \<and> (\<forall>i<length (grainList m'). count_list (coordList (grainList m' ! i)) b \<le> 1)"
      by blast
  qed
next
  show "\<forall>m boundaries c n m' b.
         horizontal_line m boundaries c \<longrightarrow> findGrains m boundaries n = Some (Inr m')
         \<longrightarrow> inside m b \<longrightarrow> cell boundaries b \<longrightarrow>
           cell (grains m') b = cell (grains m') (fst b, snd b - 1)
         \<and> cell (grains m') b \<noteq> - 1 \<and> cell (grains m') b \<noteq> 0
         \<and> (cell (grains m') b = - 2
            \<or> (\<exists>!i. i < length (grainList m') \<and> b \<in> set (coordList (grainList m' ! i))))
         \<and> (\<forall>i<length (grainList m'). count_list (coordList (grainList m' ! i)) b \<le> 1)"
  proof (intro allI impI)
    fix m boundaries c n m' b
    assume hl: "horizontal_line m boundaries c"
      and res: "findGrains m boundaries n = Some (Inr m')"
      and b: "inside m b" "cell boundaries b"
    from hl have rc: "rect m boundaries" and c: "0 < c" "c < yDim m - 1"
      and mask: "\<And>p. inside m p \<Longrightarrow> cell boundaries p = (snd p = c)"
      by (auto simp: horizontal_line_def)
    note ba = boundary_absorbed[OF rc res b]
    from mask[OF b(1)] b(2) have fb: "snd b = c" by simp
    let ?q = "(fst b, snd b - 1)"
    from b(1) c fb have qi: "inside m ?q" by (auto simp: inside_def)
    from mask[OF qi] fb have qn: "\<not> cell boundaries ?q" by simp
    have fw: "forward ?q b" by (simp add: forward_def)
    from ba(2) qi qn fw have n1: "cell (grains m') b \<noteq> - 1" by blast
    from ba(3)[OF n1] obtain q where q: "inside m q" "\<not> cell boundaries q" "forward q b"
      "cell (grains m') q = cell (grains m') b" by blast
    have "q = ?q"
    proof (rule ccontr)
      assume "q \<noteq> ?q"
      with q(3) have "q = (fst b - 1, snd b)" by (cases q, cases b) (auto simp: forward_def)
      with mask[OF q(1)] fb q(2) show False by simp
    qed
    with q(4) have eq: "cell (grains m') b = cell (grains m') ?q" by simp
    from eq n1 ba(1) ba(4) ba(5)
    show "cell (grains m') b = cell (grains m') (fst b, snd b - 1)
         \<and> cell (grains m') b \<noteq> - 1 \<and> cell (grains m') b \<noteq> 0
         \<and> (cell (grains m') b = - 2
            \<or> (\<exists>!i. i < length (grainList m') \<and> b \<in> set (coordList (grainList m' ! i))))
         \<and> (\<forall>i<length (grainList m'). count_list (coordList (grainList m' ! i)) b \<le> 1)"
      by blast
  qed
qed

theorem boundary_line_absorbed_once_witness:
  "findGrains strip_map strip_mask 4 = Some (Inr strip_result)
   \<and> cell (grains strip_result) (1, 2) = cell (grains strip_result) (0, 2)
   \<and> cell (grains strip_result) (1, 2) \<noteq> - 1 \<and> cell (grains strip_result) (1, 2) \<noteq> 0
   \<and> count_list (coordList (grainList strip_result ! 0)) (1, 2) \<le> 1"
proof -
  have i: "inside strip_map (1, 2)" by (simp add: inside_def strip_map_def)
  have c: "cell strip_mask (1, 2)" by (simp add: cell_def strip_mask_def)
  have l: "0 < length (grainList strip_result)" by (simp add: strip_result_def)
  note t = boundary_line_absorbed_once[of 1, THEN conjunct2, THEN conjunct1, rule_format,
              OF vertical_line_strip findGrains_strip i c]
  from t l findGrains_strip show ?thesis by auto
qed

section \<open>Cropping with positive margins\<close>

text \<open>
  With a right and a bottom margin of at least 1, and margins that fit, \<open>crop\<close> does
  return the full size minus the margins.
\<close>

lemma py_slice_length:
  assumes "0 \<le> i" "1 \<le> j" "i + j \<le> int (length xs)"
  shows "int (length (py_slice xs i (- j))) = int (length xs) - i - j"
  using assms by (simp add: py_slice_def slice_bound_def Let_def)

lemma py_slice_subset: "set (py_slice xs i j) \<subseteq> set xs"
  unfolding py_slice_def Let_def
  by (meson set_take_subset set_drop_subset subset_trans)

lemma crop_positive_margins:
  assumes "int (length a) = ydim m" "\<forall>row\<in>set a. int (length row) = xdim m"
    and "cropDists m = ((x0, x1), (y0, y1))"
    and "0 \<le> x0" "1 \<le> x1" "x0 + x1 \<le> xdim m" "0 \<le> y0" "1 \<le> y1" "y0 + y1 \<le> ydim m"
  shows "int (length (crop m a)) = ydim m - y0 - y1
       \<and> (\<forall>row\<in>set (crop m a). int (length row) = xdim m - x0 - x1)"
proof -
  have "int (length (py_slice a y0 (- y1))) = ydim m - y0 - y1"
    using py_slice_length[of y0 y1 a] assms by simp
  moreover have "int (length (py_slice row x0 (- x1))) = xdim m - x0 - x1"
    if "row \<in> set (py_slice a y0 (- y1))" for row
  proof -
    from that py_slice_subset[of a y0 "- y1"] have "row \<in> set a" by blast
    with assms(2) have "int (length row) = xdim m" by blast
    with py_slice_length[of x0 x1 row] assms show ?thesis by simp
  qed
  ultimately show ?thesis by (auto simp: crop_def assms(3))
qed

section \<open>The shape of the cropped array\<close>

text \<open>\<open>crop_shape\<close> is the shape of what \<open>crop\<close> returns.\<close>

lemma py_slice_slice_length: "length (py_slice xs i j) = slice_length (length xs) i j"
proof -
  have "slice_bound (length xs) j \<le> length xs"
    unfolding slice_bound_def by (cases "j < 0") auto
  then show ?thesis by (simp add: py_slice_def slice_length_def Let_def)
qed

lemma crop_has_crop_shape:
  assumes "length a = rows" and "\<forall>row\<in>set a. length row = cols"
  shows "length (crop m a) = fst (crop_shape m (rows, cols))"
    and "\<forall>row\<in>set (crop m a). length row = snd (crop_shape m (rows, cols))"
proof -
  show "length (crop m a) = fst (crop_shape m (rows, cols))"
    by (simp add: crop_def crop_shape_def py_slice_slice_length assms(1))
  have "length (py_slice row i j) = slice_length cols i j"
    if "row \<in> set (py_slice a k l)" for row i j k l
  proof -
    from that py_slice_subset[of a k l] have "row \<in> set a" by blast
    with assms(2) show ?thesis by (simp add: py_slice_slice_length)
  qed
  then show "\<forall>row\<in>set (crop m a). length row = snd (crop_shape m (rows, cols))"
    by (auto simp: crop_def crop_shape_def)
qed

section \<open>Correspondence: the whole loop\<close>














end
